theory Spec2Isabelle
  imports Main
begin

section \<open>The script engine: commands, sequences, players, engine\<close>

text \<open>
  The model follows the namespace \<open>Script\<close>. Objects that the source shares by
  reference and mutates live in explicit stores of the engine state: Command objects in
  \<open>heap\<close>, Player objects in \<open>players\<close>. A \<open>ref\<close> is an address in such a store.
  JavaScript exceptions are values of type \<open>error\<close>; a function that can throw
  returns \<open>error + 'a\<close>.
\<close>

type_synonym ref = nat

datatype error =
    TypeError
  | SyntaxError string nat
  | UnsupportedCommand string nat string
  | ArgumentError string nat

subsection \<open>Objects used as dictionaries\<close>

text \<open>
  The engine keeps its sequences, its labels and its values in objects it makes with
  \<open>new Object()\<close>, and the parser reads the factories from an object of the host. Such
  an object has the properties that were written to it and, through its prototype, the
  members of \<open>Object.prototype\<close>: reading a name it does not own gives the inherited
  member of that name, and \<open>undefined\<close> only when there is none.
\<close>

definition object_prototype_names :: "string list" where
  "object_prototype_names = [''constructor'', ''__defineGetter__'', ''__defineSetter__'',
     ''hasOwnProperty'', ''__lookupGetter__'', ''__lookupSetter__'', ''isPrototypeOf'',
     ''propertyIsEnumerable'', ''toString'', ''valueOf'', ''__proto__'', ''toLocaleString'']"

text \<open>
  What \<open>obj[name]\<close> gives for such an object: \<open>undefined\<close>, a property of its own, or
  the member of \<open>Object.prototype\<close> with that name.
\<close>

datatype 'a property = Missing | Own 'a | Inherited string

definition get_property :: "(string \<rightharpoonup> 'a) \<Rightarrow> string \<Rightarrow> 'a property" where
  "get_property properties name =
     (case properties name of
        Some x \<Rightarrow> Own x
      | None \<Rightarrow> if name \<in> set object_prototype_names then Inherited name else Missing)"

text \<open>
  The property \<open>length\<close> of the inherited member of a name of
  \<open>object_prototype_names\<close>. The members are functions, whose \<open>length\<close> is their number
  of parameters, but for \<open>__proto__\<close>, which reads as the object \<open>Object.prototype\<close> and
  has no \<open>length\<close> (\<open>None\<close> is \<open>undefined\<close>).
\<close>

definition member_length :: "string \<Rightarrow> nat option" where
  "member_length name =
     (if name = ''__proto__'' then None
      else if name \<in> set [''toString'', ''valueOf'', ''toLocaleString''] then Some 0
      else if name \<in> set [''__defineGetter__'', ''__defineSetter__''] then Some 2
      else Some 1)"

subsection \<open>Commands\<close>

text \<open>
  \<open>Command\<close> is an abstract class; \<open>OneShotCommand\<close> and \<open>ContinuousCommand\<close> are
  abstract too and are completed by the host (\<open>Log\<close> in commands.ts is one such
  subclass). The bodies of the methods the host writes are modelled as finite lists of
  calls: on the public surface of the engine (\<open>goto\<close>, \<open>gosub\<close>, \<open>setValue\<close>), on the
  command itself (\<open>stopCommand\<close>) and on the console.
\<close>

text \<open>
  The values the host stores: \<open>undefined\<close>, \<open>null\<close>, a primitive value other than
  these two (a boolean, a number or a string; \<open>'v\<close> is their representation), or a plain
  object, given by its own data properties (the first entry of a name counts), whose
  prototype is \<open>Object.prototype\<close>.
\<close>

datatype 'v jsvalue = Undefined | Null | Primitive 'v | Object "(string \<times> 'v jsvalue) list"

datatype 'v action =
    Goto int string
  | Gosub int string
  | SetValue string "'v jsvalue"
  | StopCommand
  | ConsoleLog string

record 'v behaviour =
  brk :: bool
  on_registered :: "'v action list"
  on_start :: "'v action list"
  on_update :: "'v action list"
  on_finish :: "'v action list"

text \<open>
  The classes of command objects. \<open>ContinuousCommand\<close> carries the private field
  \<open>commandFinished\<close>. \<open>CommandHalt\<close> extends \<open>ContinuousCommand\<close> with empty methods:
  its field is written by \<open>init\<close> (to false) and by \<open>stopCommand\<close>, which nothing in the
  engine and none of its own methods calls, so it is false throughout and not stored.
\<close>

datatype 'v command =
    CommandReady
  | CommandHalt
  | CommandLabel string
  | OneShotCommand "'v behaviour"
  | ContinuousCommand "'v behaviour" bool

definition Log :: "string \<Rightarrow> 'v command" where
  "Log message = OneShotCommand \<lparr>brk = False, on_registered = [], on_start = [ConsoleLog message],
     on_update = [], on_finish = []\<rparr>"

fun isFinished :: "'v command \<Rightarrow> bool" where
  "isFinished CommandReady = True"
| "isFinished CommandHalt = False"
| "isFinished (CommandLabel name) = True"
| "isFinished (OneShotCommand b) = True"
| "isFinished (ContinuousCommand b commandFinished) = commandFinished"

fun isBreak :: "'v command \<Rightarrow> bool" where
  "isBreak (OneShotCommand b) = brk b"
| "isBreak (ContinuousCommand b commandFinished) = brk b"
| "isBreak c = False"

fun command_init :: "'v command \<Rightarrow> 'v command" where
  "command_init (ContinuousCommand b commandFinished) = ContinuousCommand b False"
| "command_init c = c"

fun stopCommand :: "'v command \<Rightarrow> 'v command" where
  "stopCommand (ContinuousCommand b commandFinished) = ContinuousCommand b True"
| "stopCommand c = c"

fun onRegistered_body :: "'v command \<Rightarrow> 'v action list" where
  "onRegistered_body (OneShotCommand b) = on_registered b"
| "onRegistered_body (ContinuousCommand b commandFinished) = on_registered b"
| "onRegistered_body c = []"

fun start_body :: "'v command \<Rightarrow> 'v action list" where
  "start_body (OneShotCommand b) = on_start b"
| "start_body (ContinuousCommand b commandFinished) = on_start b"
| "start_body c = []"

text \<open>\<open>OneShotCommand\<close> fixes \<open>update\<close> and \<open>finish\<close> to empty bodies.\<close>

fun update_body :: "'v command \<Rightarrow> 'v action list" where
  "update_body (ContinuousCommand b commandFinished) = on_update b"
| "update_body c = []"

fun finish_body :: "'v command \<Rightarrow> 'v action list" where
  "finish_body (ContinuousCommand b commandFinished) = on_finish b"
| "finish_body c = []"

subsection \<open>Labels\<close>

record label =
  scriptName :: string
  labelName :: string
  index :: nat

definition fullname :: "string \<Rightarrow> string \<Rightarrow> string" where
  "fullname script_name label_name = script_name @ ''/'' @ label_name"

text \<open>\<open>name.indexOf("/")\<close>: the position of the first slash, or \<open>-1\<close>.\<close>

fun indexOf :: "char \<Rightarrow> string \<Rightarrow> int" where
  "indexOf c [] = -1"
| "indexOf c (x # xs) = (if x = c then 0 else (let i = indexOf c xs in if i < 0 then -1 else i + 1))"

definition isFullname :: "string \<Rightarrow> bool" where
  "isFullname name = (indexOf CHR ''/'' name > 0)"

subsection \<open>Players and the engine state\<close>

text \<open>
  The current command of a Player is one of the two sentinels it creates itself
  (\<open>new CommandReady()\<close>, \<open>new CommandHalt()\<close>: fresh objects without state that nothing
  else can reach) or a command fetched from its sequence, held by reference.
\<close>

datatype current = ReadySentinel | HaltSentinel | Fetched ref

text \<open>
  A Player holds in \<open>sequence\<close> what \<open>this.sequences[scriptName]\<close> gave when it was
  reset. A Sequence object is created only by \<open>Engine.register\<close>, stored under its own
  script name and never replaced, so \<open>Own n\<close> stands for the Sequence object of the
  script \<open>n\<close>; \<open>Missing\<close> is \<open>undefined\<close> (the script was not registered), and
  \<open>Inherited m\<close> is a member of \<open>Object.prototype\<close>, which is not a Sequence.
\<close>

record player =
  sequence :: "string property"
  currentCommand :: current
  programCounter :: int

text \<open>The method calls the engine makes on commands, in order (an observation, not a field).\<close>

datatype event =
    Init current
  | Start current
  | Update current
  | Finish current
  | OnRegistered current

text \<open>
  The object \<open>values\<close> of the value container: the properties it owns and its
  prototype, which a write to the key \<open>__proto__\<close> can replace by \<open>null\<close> or by a
  plain object of the host.
\<close>

datatype 'v prototype = ObjectPrototype | NullPrototype | PlainObject "(string \<times> 'v jsvalue) list"

record 'v container =
  own :: "string \<rightharpoonup> 'v jsvalue"
  prototype :: "'v prototype"

text \<open>
  The state of an engine. \<open>sequences\<close> holds the Sequence objects that the object
  \<open>this.sequences\<close> owns, each as its array \<open>program\<close>. \<open>labelTable\<close> holds the
  properties that the object \<open>this.labelTable\<close> owns: every key that is written to it
  or read from it contains a slash, which no member of \<open>Object.prototype\<close> does, so
  nothing inherited is ever read from it and its prototype is never replaced.
\<close>

record 'v engine =
  sequences :: "string \<rightharpoonup> ref list"
  player :: "ref option"
  callStack :: "ref option list"
  labelTable :: "string \<rightharpoonup> label"
  valueContainer :: "'v container"
  heap :: "ref \<Rightarrow> 'v command"
  players :: "ref \<Rightarrow> player"
  next_player :: ref
  console :: "string list"
  trace :: "event list"

text \<open>
  \<open>new Engine()\<close>, over a store of command objects built by the host: the three
  dictionaries own nothing yet.
\<close>

definition Engine_new :: "(ref \<Rightarrow> 'v command) \<Rightarrow> 'v engine" where
  "Engine_new store = \<lparr>sequences = Map.empty, player = None, callStack = [],
     labelTable = Map.empty, valueContainer = \<lparr>own = Map.empty, prototype = ObjectPrototype\<rparr>,
     heap = store,
     players = (\<lambda>r. \<lparr>sequence = Missing, currentCommand = ReadySentinel, programCounter = -1\<rparr>),
     next_player = 0, console = [], trace = []\<rparr>"

definition Player_reset :: "string property \<Rightarrow> int \<Rightarrow> player" where
  "Player_reset sq idx = \<lparr>sequence = sq, currentCommand = ReadySentinel, programCounter = idx - 1\<rparr>"

text \<open>\<open>this.sequences[scriptName]\<close>, with the Sequence object named by its script.\<close>

definition sequence_ref :: "'v engine \<Rightarrow> string \<Rightarrow> string property" where
  "sequence_ref e script_name =
     (case get_property (sequences e) script_name of
        Own program \<Rightarrow> Own script_name
      | Inherited m \<Rightarrow> Inherited m
      | Missing \<Rightarrow> Missing)"

definition Player_new :: "string property \<Rightarrow> int \<Rightarrow> 'v engine \<Rightarrow> ref \<times> 'v engine" where
  "Player_new sq idx e =
     (next_player e,
      e\<lparr>players := (players e)(next_player e := Player_reset sq idx),
        next_player := next_player e + 1\<rparr>)"

definition command_of :: "'v engine \<Rightarrow> current \<Rightarrow> 'v command" where
  "command_of e c = (case c of ReadySentinel \<Rightarrow> CommandReady | HaltSentinel \<Rightarrow> CommandHalt
     | Fetched r \<Rightarrow> heap e r)"

definition Player_isHalted :: "'v engine \<Rightarrow> ref \<Rightarrow> bool" where
  "Player_isHalted e p = (command_of e (currentCommand (players e p)) = CommandHalt)"

text \<open>
  \<open>this.sequence.scriptName\<close>: a TypeError on \<open>undefined\<close>, the script name of a
  Sequence, and \<open>undefined\<close> (\<open>None\<close>) on a member of \<open>Object.prototype\<close>, which has no
  such property.
\<close>

definition Player_scriptName :: "'v engine \<Rightarrow> ref \<Rightarrow> error + string option" where
  "Player_scriptName e p =
     (case sequence (players e p) of
        Missing \<Rightarrow> Inl TypeError
      | Own n \<Rightarrow> Inr (Some n)
      | Inherited m \<Rightarrow> Inr None)"

subsection \<open>Value container\<close>

text \<open>
  What a read of \<open>values[name]\<close> gives: a stored value (\<open>undefined\<close> when there is
  none), the object \<open>Object.prototype\<close>, or a method that \<open>Object.prototype\<close> provides.
\<close>

datatype 'v reading = Value "'v jsvalue" | PrototypeObject | Member string

text \<open>
  A read at \<open>Object.prototype\<close>, the end of the prototype chain. Its property
  \<open>__proto__\<close> is an accessor, whose getter returns the prototype of the object that is
  read (\<open>receiver_prototype\<close>).
\<close>

definition ObjectPrototype_get :: "string \<Rightarrow> 'v reading \<Rightarrow> 'v reading" where
  "ObjectPrototype_get name receiver_prototype =
     (if name = ''__proto__'' then receiver_prototype
      else if name \<in> set object_prototype_names then Member name
      else Value Undefined)"

text \<open>\<open>return this.values[name]\<close>: the own property, or else what the prototype chain gives.\<close>

definition ValueContainer_get :: "string \<Rightarrow> 'v container \<Rightarrow> 'v reading" where
  "ValueContainer_get name vals =
     (case own vals name of
        Some v \<Rightarrow> Value v
      | None \<Rightarrow>
          (case prototype vals of
             NullPrototype \<Rightarrow> Value Undefined
           | ObjectPrototype \<Rightarrow> ObjectPrototype_get name PrototypeObject
           | PlainObject props \<Rightarrow>
               (case map_of props name of
                  Some v \<Rightarrow> Value v
                | None \<Rightarrow> ObjectPrototype_get name (Value (Object props)))))"

text \<open>
  Whether a write of \<open>__proto__\<close> to an object with this prototype that does not own
  the name reaches the accessor of \<open>Object.prototype\<close>: the chain ends there, and no
  object before it has a data property of that name.
\<close>

definition reaches_setter :: "'v prototype \<Rightarrow> bool" where
  "reaches_setter proto =
     (case proto of
        NullPrototype \<Rightarrow> False
      | ObjectPrototype \<Rightarrow> True
      | PlainObject props \<Rightarrow> map_of props ''__proto__'' = None)"

text \<open>
  \<open>this.values[name] = value\<close>. The write makes or updates an own property, except
  when it reaches the setter of \<open>__proto__\<close>: that replaces the prototype when the value
  is an object or \<open>null\<close>, and does nothing for any other value. Every other inherited
  member is a writable data property, which a write shadows by an own property.
\<close>

definition ValueContainer_set :: "string \<Rightarrow> 'v jsvalue \<Rightarrow> 'v container \<Rightarrow> 'v container" where
  "ValueContainer_set name v vals =
     (if name = ''__proto__'' \<and> own vals name = None \<and> reaches_setter (prototype vals) then
        (case v of
           Object props \<Rightarrow> vals\<lparr>prototype := PlainObject props\<rparr>
         | Null \<Rightarrow> vals\<lparr>prototype := NullPrototype\<rparr>
         | _ \<Rightarrow> vals)
      else vals\<lparr>own := (own vals)(name \<mapsto> v)\<rparr>)"

definition setValue :: "string \<Rightarrow> 'v jsvalue \<Rightarrow> 'v engine \<Rightarrow> 'v engine" where
  "setValue valueName v e = e\<lparr>valueContainer := ValueContainer_set valueName v (valueContainer e)\<rparr>"

definition getValue :: "string \<Rightarrow> 'v engine \<Rightarrow> 'v reading" where
  "getValue valueName e = ValueContainer_get valueName (valueContainer e)"

subsection \<open>Jumps, labels\<close>

definition Engine_goto :: "int \<Rightarrow> string \<Rightarrow> 'v engine \<Rightarrow> error + 'v engine" where
  "Engine_goto idx script_name e =
     (case player e of
        None \<Rightarrow> Inl TypeError
      | Some p \<Rightarrow> Inr (e\<lparr>players := (players e)(p := Player_reset (sequence_ref e script_name) idx)\<rparr>))"

definition Engine_gosub :: "int \<Rightarrow> string \<Rightarrow> 'v engine \<Rightarrow> 'v engine" where
  "Engine_gosub idx script_name e =
     (let e1 = e\<lparr>callStack := callStack e @ [player e]\<rparr>;
          (p, e2) = Player_new (sequence_ref e1 script_name) idx e1
      in e2\<lparr>player := Some p\<rparr>)"

text \<open>A value as an operand of the string concatenation: \<open>undefined\<close> gives its name.\<close>

definition string_of :: "string option \<Rightarrow> string" where
  "string_of x = (case x of None \<Rightarrow> ''undefined'' | Some s \<Rightarrow> s)"

definition getLabel :: "string \<Rightarrow> 'v engine \<Rightarrow> error + label option" where
  "getLabel name e =
     (if isFullname name = False then
        (case player e of
           None \<Rightarrow> Inl TypeError
         | Some p \<Rightarrow>
             (case Player_scriptName e p of
                Inl err \<Rightarrow> Inl err
              | Inr script_name \<Rightarrow> Inr (labelTable e (fullname (string_of script_name) name))))
      else Inr (labelTable e name))"

definition Engine_isHalted :: "'v engine \<Rightarrow> error + bool" where
  "Engine_isHalted e = (case player e of None \<Rightarrow> Inl TypeError | Some p \<Rightarrow> Inr (Player_isHalted e p))"

subsection \<open>Calling the methods of a command\<close>

text \<open>One call in a method body, made by the command object \<open>this\<close>.\<close>

fun exec_action :: "current \<Rightarrow> 'v action \<Rightarrow> 'v engine \<Rightarrow> error + 'v engine" where
  "exec_action this (Goto idx script_name) e = Engine_goto idx script_name e"
| "exec_action this (Gosub idx script_name) e = Inr (Engine_gosub idx script_name e)"
| "exec_action this (SetValue name v) e = Inr (setValue name v e)"
| "exec_action this StopCommand e =
     (case this of
        Fetched r \<Rightarrow> Inr (e\<lparr>heap := (heap e)(r := stopCommand (heap e r))\<rparr>)
      | _ \<Rightarrow> Inr e)"
| "exec_action this (ConsoleLog message) e = Inr (e\<lparr>console := console e @ [message]\<rparr>)"

fun exec_body :: "current \<Rightarrow> 'v action list \<Rightarrow> 'v engine \<Rightarrow> error + 'v engine" where
  "exec_body this [] e = Inr e"
| "exec_body this (a # as) e =
     (case exec_action this a e of Inl err \<Rightarrow> Inl err | Inr e' \<Rightarrow> exec_body this as e')"

definition log_event :: "event \<Rightarrow> 'v engine \<Rightarrow> 'v engine" where
  "log_event ev e = e\<lparr>trace := trace e @ [ev]\<rparr>"

definition call_init :: "ref \<Rightarrow> 'v engine \<Rightarrow> 'v engine" where
  "call_init r e = (log_event (Init (Fetched r)) e)\<lparr>heap := (heap e)(r := command_init (heap e r))\<rparr>"

definition call_start :: "current \<Rightarrow> 'v engine \<Rightarrow> error + 'v engine" where
  "call_start c e = exec_body c (start_body (command_of e c)) (log_event (Start c) e)"

definition call_update :: "current \<Rightarrow> 'v engine \<Rightarrow> error + 'v engine" where
  "call_update c e = exec_body c (update_body (command_of e c)) (log_event (Update c) e)"

definition call_finish :: "current \<Rightarrow> 'v engine \<Rightarrow> error + 'v engine" where
  "call_finish c e = exec_body c (finish_body (command_of e c)) (log_event (Finish c) e)"

definition call_onRegistered :: "ref \<Rightarrow> 'v engine \<Rightarrow> error + 'v engine" where
  "call_onRegistered r e =
     exec_body (Fetched r) (onRegistered_body (heap e r)) (log_event (OnRegistered (Fetched r)) e)"

subsection \<open>Player.run\<close>

definition set_programCounter :: "ref \<Rightarrow> int \<Rightarrow> 'v engine \<Rightarrow> 'v engine" where
  "set_programCounter self pc e = e\<lparr>players := (players e)(self := (players e self)\<lparr>programCounter := pc\<rparr>)\<rparr>"

definition set_currentCommand :: "ref \<Rightarrow> current \<Rightarrow> 'v engine \<Rightarrow> 'v engine" where
  "set_currentCommand self c e = e\<lparr>players := (players e)(self := (players e self)\<lparr>currentCommand := c\<rparr>)\<rparr>"

text \<open>
  \<open>this.sequence.length\<close>: a TypeError when the Player has no sequence, the length of
  the array of a Sequence, and for a member of \<open>Object.prototype\<close> its own property
  \<open>length\<close>, which can be \<open>undefined\<close> (\<open>None\<close>).
\<close>

definition Sequence_length :: "'v engine \<Rightarrow> string property \<Rightarrow> error + nat option" where
  "Sequence_length e sq =
     (case sq of
        Missing \<Rightarrow> Inl TypeError
      | Own n \<Rightarrow> (case sequences e n of None \<Rightarrow> Inl TypeError | Some program \<Rightarrow> Inr (Some (length program)))
      | Inherited m \<Rightarrow> Inr (member_length m))"

text \<open>\<open>length <= programCounter\<close>: false when the length is \<open>undefined\<close>.\<close>

definition length_le :: "nat option \<Rightarrow> int \<Rightarrow> bool" where
  "length_le len pc = (case len of None \<Rightarrow> False | Some l \<Rightarrow> int l \<le> pc)"

text \<open>
  \<open>this.sequence.fetchCommand(index)\<close>: \<open>this.program[index]\<close> of a Sequence, which
  is \<open>undefined\<close> outside the array; a TypeError on anything that is not a Sequence,
  which has no such method.
\<close>

definition fetchCommand :: "'v engine \<Rightarrow> string property \<Rightarrow> int \<Rightarrow> error + ref option" where
  "fetchCommand e sq idx =
     (case sq of
        Missing \<Rightarrow> Inl TypeError
      | Inherited m \<Rightarrow> Inl TypeError
      | Own n \<Rightarrow>
          (case sequences e n of
             None \<Rightarrow> Inl TypeError
           | Some program \<Rightarrow>
               Inr (if 0 \<le> idx \<and> idx < int (length program) then Some (program ! nat idx) else None)))"

text \<open>The statements of \<open>Player.run\<close> after its loop.\<close>

definition Player_update :: "ref \<Rightarrow> 'v engine \<Rightarrow> error + 'v engine" where
  "Player_update self e =
     (if isFinished (command_of e (currentCommand (players e self))) = False then
        (case call_update (currentCommand (players e self)) e of
           Inl err \<Rightarrow> Inl err
         | Inr e1 \<Rightarrow>
             if isFinished (command_of e1 (currentCommand (players e1 self)))
             then call_finish (currentCommand (players e1 self)) e1
             else Inr e1)
      else Inr e)"

text \<open>
  How one iteration of the loop of \<open>Player.run\<close> ends: the method returns (the
  sequence is exhausted), an exception leaves it, the loop is left by \<open>break\<close>, or the
  loop condition is tested again.
\<close>

datatype 'a iteration = Return 'a | Throw error | Break 'a | Continue 'a

text \<open>The body of the loop.\<close>

definition Player_advance :: "ref \<Rightarrow> 'v engine \<Rightarrow> 'v engine iteration" where
  "Player_advance self e =
     (let e1 = set_programCounter self (programCounter (players e self) + 1) e in
      case Sequence_length e1 (sequence (players e1 self)) of
        Inl err \<Rightarrow> Throw err
      | Inr len \<Rightarrow>
          if length_le len (programCounter (players e1 self)) then
            Return (set_currentCommand self HaltSentinel e1)
          else
            (case fetchCommand e1 (sequence (players e1 self)) (programCounter (players e1 self)) of
               Inl err \<Rightarrow> Throw err
             | Inr None \<Rightarrow> Throw TypeError
             | Inr (Some r) \<Rightarrow>
                 (case call_start (Fetched r) (call_init r (set_currentCommand self (Fetched r) e1)) of
                    Inl err \<Rightarrow> Throw err
                  | Inr e4 \<Rightarrow>
                      if isBreak (command_of e4 (currentCommand (players e4 self)))
                      then Break e4
                      else Continue e4)))"

text \<open>
  \<open>Player.run\<close>. The loop can run forever (a command whose \<open>start\<close> jumps back), so
  the result is an option and \<open>None\<close> is a call that does not return. The recursive call
  is the rest of the loop followed by the statements after it.
\<close>

partial_function (option) Player_run :: "ref \<Rightarrow> 'v engine \<Rightarrow> (error + 'v engine) option" where
  "Player_run self e =
     (if isFinished (command_of e (currentCommand (players e self))) then
        (case Player_advance self e of
           Return e' \<Rightarrow> Some (Inr e')
         | Throw err \<Rightarrow> Some (Inl err)
         | Break e' \<Rightarrow> Some (Player_update self e')
         | Continue e' \<Rightarrow> Player_run self e')
      else Some (Player_update self e))"

declare Player_run.simps [code]

subsection \<open>Engine.run\<close>

definition Engine_run :: "'v engine \<Rightarrow> (error + 'v engine) option" where
  "Engine_run e =
     (case player e of
        None \<Rightarrow> Some (Inl TypeError)
      | Some p \<Rightarrow>
          (case Player_run p e of
             None \<Rightarrow> None
           | Some (Inl err) \<Rightarrow> Some (Inl err)
           | Some (Inr e1) \<Rightarrow>
               (case player e1 of
                  None \<Rightarrow> Some (Inl TypeError)
                | Some p1 \<Rightarrow>
                    if Player_isHalted e1 p1 \<and> length (callStack e1) > 0
                    then Some (Inr (e1\<lparr>player := last (callStack e1), callStack := butlast (callStack e1)\<rparr>))
                    else Some (Inr e1))))"

text \<open>\<open>n\<close> calls of \<open>Engine.run\<close> in a row, stopping at the first exception.\<close>

fun Engine_runs :: "nat \<Rightarrow> 'v engine \<Rightarrow> (error + 'v engine) option" where
  "Engine_runs 0 e = Some (Inr e)"
| "Engine_runs (Suc n) e =
     (case Engine_run e of
        None \<Rightarrow> None
      | Some (Inl err) \<Rightarrow> Some (Inl err)
      | Some (Inr e1) \<Rightarrow> Engine_runs n e1)"

subsection \<open>Engine.register\<close>

text \<open>
  \<open>Sequence.register\<close>, on the array \<open>program\<close> of the Sequence. \<open>new Sequence\<close>
  leaves \<open>program\<close> undefined, and \<open>Sequence.register\<close>, which \<open>Engine.register\<close>
  calls on the new Sequence before anything reads it, makes it the empty array first: a
  new Sequence is stored with the empty array.
\<close>

definition Sequence_register :: "ref list \<Rightarrow> ref list \<Rightarrow> ref list" where
  "Sequence_register cmds program = program @ cmds"

text \<open>The first \<open>forEach\<close> of \<open>Engine.register\<close>: every label of the sequence, with its position.\<close>

fun index_labels :: "string \<Rightarrow> (ref \<Rightarrow> 'v command) \<Rightarrow> ref list \<Rightarrow> nat \<Rightarrow> (string \<rightharpoonup> label) \<Rightarrow> (string \<rightharpoonup> label)" where
  "index_labels script_name store [] i tbl = tbl"
| "index_labels script_name store (r # rs) i tbl =
     index_labels script_name store rs (i + 1)
       (case store r of
          CommandLabel name \<Rightarrow> tbl(fullname script_name name \<mapsto> \<lparr>scriptName = script_name, labelName = name, index = i\<rparr>)
        | _ \<Rightarrow> tbl)"

text \<open>The second \<open>forEach\<close>: \<open>onRegistered\<close> on every command of the sequence.\<close>

fun notify_registered :: "ref list \<Rightarrow> 'v engine \<Rightarrow> error + 'v engine" where
  "notify_registered [] e = Inr e"
| "notify_registered (r # rs) e =
     (case call_onRegistered r e of Inl err \<Rightarrow> Inl err | Inr e' \<Rightarrow> notify_registered rs e')"

text \<open>
  \<open>Engine.register\<close>. A Sequence is created when \<open>this.sequences[scriptName]\<close> is
  \<open>undefined\<close>. For a script name that \<open>Object.prototype\<close> has a member of it is not:
  no Sequence is created, and the call of \<open>register\<close> on that member, which has no such
  method, is a TypeError.
\<close>

definition Engine_register :: "ref list \<Rightarrow> string \<Rightarrow> 'v engine \<Rightarrow> error + 'v engine" where
  "Engine_register cmds script_name e =
     (let e1 = (if sequence_ref e script_name = Missing
                then e\<lparr>sequences := (sequences e)(script_name \<mapsto> [])\<rparr>
                else e);
          e2 = (if player e1 = None
                then (let (p, e') = Player_new (sequence_ref e1 script_name) 0 e1 in e'\<lparr>player := Some p\<rparr>)
                else e1)
      in case get_property (sequences e2) script_name of
           Own old \<Rightarrow>
             (let program = Sequence_register cmds old;
                  e3 = e2\<lparr>sequences := (sequences e2)(script_name \<mapsto> program)\<rparr>;
                  e4 = e3\<lparr>labelTable := index_labels script_name (heap e3) program 0 (labelTable e3)\<rparr>
              in notify_registered program e4)
         | _ \<Rightarrow> Inl TypeError)"

section \<open>The parser\<close>

text \<open>
  Script text, file names and tokens are values of \<open>string\<close>: lists of characters with
  codes below 256, one character for one code unit of the JavaScript string.
\<close>

text \<open>
  An argument of a call: a string literal, or a number. The number is the value of
  \<open>parseFloat\<close> on the scanned token; floating point is not modelled and the token
  stands for it.
\<close>

datatype arg = StringArg string | NumberArg string

text \<open>
  The factory table is an object of the host, given by what \<open>commandTable[name]\<close>
  reads as for every name: \<open>undefined\<close>, a factory that the table owns, or a member
  that it inherits from \<open>Object.prototype\<close>. An object literal owns the properties
  written in it and inherits every member of \<open>Object.prototype\<close> that these do not
  shadow.
\<close>

type_synonym 'c table = "string \<Rightarrow> (arg list \<Rightarrow> 'c) property"

definition object_literal :: "(string \<times> 'a) list \<Rightarrow> string \<Rightarrow> 'a property" where
  "object_literal properties name = get_property (map_of properties) name"

text \<open>
  What the parser pushes for a call is what \<open>commandTable[commandName]\<close>, called with
  the arguments, returns: the command a factory makes, or, for a name that the table
  inherits, the value that this method of \<open>Object.prototype\<close> returns, which is not a
  command.
\<close>

datatype 'c pushed = FactoryResult 'c | MemberResult string "arg list"

text \<open>
  The call of an inherited member with the argument array. \<open>__proto__\<close> reads as an
  object, which cannot be called; \<open>__defineGetter__\<close> and \<open>__defineSetter__\<close> reject
  their missing second argument; the other methods return.
\<close>

definition call_member :: "string \<Rightarrow> arg list \<Rightarrow> error + 'c pushed" where
  "call_member name args =
     (if name \<in> set [''__proto__'', ''__defineGetter__'', ''__defineSetter__'']
      then Inl TypeError
      else Inr (MemberResult name args))"

datatype pstate = Default | Whitespace | SingleLineComment | Function | Argument
  | ArgumentString | ArgumentNumber

subsection \<open>String primitives of JavaScript\<close>

text \<open>\<open>s[p]\<close>: \<open>undefined\<close> (here \<open>None\<close>) at and beyond the end.\<close>

definition char_at :: "string \<Rightarrow> nat \<Rightarrow> char option" where
  "char_at s p = (if p < length s then Some (s ! p) else None)"

text \<open>
  \<open>" \t\r\n;,".indexOf(s[p]) >= 0\<close>. For \<open>undefined\<close> the search is for the text
  "undefined", which is not found.
\<close>

definition is_separator :: "char option \<Rightarrow> bool" where
  "is_separator c = (case c of None \<Rightarrow> False
     | Some x \<Rightarrow> x \<in> set [CHR '' '', CHR 0x09, CHR 0x0D, CHR 0x0A, CHR '';'', CHR '',''])"

text \<open>\<open>"-+.0123456789".indexOf(s[p]) >= 0\<close>.\<close>

definition is_numeric :: "char option \<Rightarrow> bool" where
  "is_numeric c = (case c of None \<Rightarrow> False | Some x \<Rightarrow> x \<in> set ''-+.0123456789'')"

text \<open>\<open>c.match(/[a-z]/i)\<close>.\<close>

definition is_letter :: "char \<Rightarrow> bool" where
  "is_letter c = ((97 \<le> (of_char c :: nat) \<and> (of_char c :: nat) \<le> 122)
                  \<or> (65 \<le> (of_char c :: nat) \<and> (of_char c :: nat) \<le> 90))"

text \<open>\<open>s.indexOf(c, p)\<close>.\<close>

definition indexOf_from :: "char \<Rightarrow> string \<Rightarrow> nat \<Rightarrow> int" where
  "indexOf_from c s p = (let i = indexOf c (drop p s) in if i < 0 then -1 else i + int p)"

text \<open>\<open>s.substr(p, n)\<close>: empty when the length is not positive.\<close>

definition substr :: "string \<Rightarrow> nat \<Rightarrow> int \<Rightarrow> string" where
  "substr s p n = (if n \<le> 0 then [] else take (nat n) (drop p s))"

definition is_js_space :: "char \<Rightarrow> bool" where
  "is_js_space c = (c \<in> set [CHR 0x09, CHR 0x0A, CHR 0x0B, CHR 0x0C, CHR 0x0D, CHR 0x20, CHR 0xA0])"

definition trim :: "string \<Rightarrow> string" where
  "trim s = rev (dropWhile is_js_space (rev (dropWhile is_js_space s)))"

subsection \<open>The loops inside the parser\<close>

text \<open>
  The closure \<open>skip_whitespace\<close>; it increments the captured variable \<open>line\<close>, which is
  passed in and returned with the position.
\<close>

function skip_whitespace :: "string \<Rightarrow> nat \<Rightarrow> nat \<Rightarrow> nat \<times> nat" where
  "skip_whitespace s p line =
     (if is_separator (char_at s p)
      then skip_whitespace s (p + 1) (if char_at s p = Some (CHR 0x0A) then line + 1 else line)
      else (p, line))"
  by pat_completeness auto
termination
  by (relation "measure (\<lambda>(s, p, line). length s - p)")
     (auto simp: is_separator_def char_at_def split: if_splits)

text \<open>The scan of the state \<open>argument_number\<close>: \<open>while (... indexOf(script[index]) >= 0) index++\<close>.\<close>

function scan_number :: "string \<Rightarrow> nat \<Rightarrow> nat" where
  "scan_number s i = (if is_numeric (char_at s i) then scan_number s (i + 1) else i)"
  by pat_completeness auto
termination
  by (relation "measure (\<lambda>(s, i). length s - i)")
     (auto simp: is_numeric_def char_at_def split: if_splits)

text \<open>
  The loop of the state \<open>singlelinecomment\<close>: \<open>while (script[p++] !== "\n") ;\<close>. Beyond
  the end of the text \<open>script[p]\<close> is \<open>undefined\<close>, which differs from the newline, so
  the loop goes on; \<open>None\<close> is the loop that never ends. The result is the position after
  the newline.
\<close>

partial_function (option) skip_comment :: "string \<Rightarrow> nat \<Rightarrow> nat option" where
  "skip_comment s p = (if char_at s p \<noteq> Some (CHR 0x0A) then skip_comment s (p + 1) else Some (p + 1))"

declare skip_comment.simps [code]

subsection \<open>Parser.parse\<close>

text \<open>\<open>stateStack.pop()\<close>: the last state pushed, \<open>undefined\<close> on an empty stack.\<close>

definition pop_state :: "pstate list \<Rightarrow> pstate option" where
  "pop_state stack = (if stack = [] then None else Some (last stack))"

text \<open>
  The local variables of \<open>Parser.parse\<close> that live across iterations of its main
  loop; \<open>index\<close> and \<open>token\<close> are temporaries of one state. The array
  \<open>currentCommand\<close> (here \<open>current_command\<close>) is the name token followed by the
  arguments read so far, and \<open>undefined\<close> (\<open>None\<close>) before the first call.
\<close>

record 'c parser =
  commands :: "'c pushed list"
  current_command :: "arg list option"
  pos :: nat
  state :: "pstate option"
  stateStack :: "pstate list"
  line :: nat

text \<open>
  One pass through the \<open>switch\<close>. A state that is \<open>undefined\<close> matches no case, so
  nothing changes. \<open>None\<close> is a pass that never ends (the comment loop). In the state
  \<open>function\<close>, \<open>currentCommand.shift()\<close> on \<open>undefined\<close> is a TypeError; the array is
  never empty and its first element is always the name token, so the other shapes, which
  the loop does not reach, are given the same result.
\<close>

definition parse_step ::
  "'c table \<Rightarrow> string \<Rightarrow> string \<Rightarrow> 'c parser \<Rightarrow> (error + 'c parser) option" where
  "parse_step commandTable script filename st =
     (case state st of
        None \<Rightarrow> Some (Inr st)
      | Some Default \<Rightarrow>
          if is_separator (char_at script (pos st)) then
            Some (Inr (st\<lparr>stateStack := stateStack st @ [Default], state := Some Whitespace\<rparr>))
          else if take 2 (drop (pos st) script) = ''//'' then
            Some (Inr (st\<lparr>stateStack := stateStack st @ [Default], state := Some SingleLineComment\<rparr>))
          else if is_letter (script ! pos st) then
            Some (Inr (st\<lparr>stateStack := stateStack st @ [Default], state := Some Function\<rparr>))
          else Some (Inl (SyntaxError filename (line st)))
      | Some Whitespace \<Rightarrow>
          (case skip_whitespace script (pos st) (line st) of
             (p, l) \<Rightarrow>
               Some (Inr (st\<lparr>pos := p, line := l, state := pop_state (stateStack st),
                              stateStack := butlast (stateStack st)\<rparr>)))
      | Some SingleLineComment \<Rightarrow>
          (case skip_comment script (pos st) of
             None \<Rightarrow> None
           | Some p \<Rightarrow>
               Some (Inr (st\<lparr>pos := p, line := line st + 1, state := pop_state (stateStack st),
                              stateStack := butlast (stateStack st)\<rparr>)))
      | Some Function \<Rightarrow>
          (case skip_whitespace script (pos st) (line st) of
             (p, l) \<Rightarrow>
               if char_at script p = Some CHR '')'' then
                 (case current_command st of
                    Some (StringArg commandName # args) \<Rightarrow>
                      (let push = (\<lambda>made.
                             Some (Inr (st\<lparr>line := l, current_command := Some args,
                                            commands := commands st @ [made], pos := p + 1,
                                            state := pop_state (stateStack st),
                                            stateStack := butlast (stateStack st)\<rparr>)))
                       in case commandTable commandName of
                            Missing \<Rightarrow> Some (Inl (UnsupportedCommand filename l commandName))
                          | Own factory \<Rightarrow> push (FactoryResult (factory args))
                          | Inherited member \<Rightarrow>
                              (case call_member member args of
                                 Inl err \<Rightarrow> Some (Inl err)
                               | Inr returned_value \<Rightarrow> push returned_value))
                  | _ \<Rightarrow> Some (Inl TypeError))
               else
                 (let idx = indexOf_from CHR ''('' script p;
                      token = trim (substr script p (idx - int p))
                  in Some (Inr (st\<lparr>line := l, current_command := Some [StringArg token],
                                     pos := nat (idx + 1),
                                     stateStack := stateStack st @ [Function],
                                     state := Some Argument\<rparr>))))
      | Some Argument \<Rightarrow>
          (case skip_whitespace script (pos st) (line st) of
             (p, l) \<Rightarrow>
               if char_at script p = Some CHR '')'' then
                 Some (Inr (st\<lparr>pos := p, line := l, state := pop_state (stateStack st),
                                stateStack := butlast (stateStack st)\<rparr>))
               else if char_at script p = Some (CHR 0x22) then
                 Some (Inr (st\<lparr>pos := p, line := l, stateStack := stateStack st @ [Argument],
                                state := Some ArgumentString\<rparr>))
               else if is_numeric (char_at script p) then
                 Some (Inr (st\<lparr>pos := p, line := l, stateStack := stateStack st @ [Argument],
                                state := Some ArgumentNumber\<rparr>))
               else Some (Inl (ArgumentError filename l)))
      | Some ArgumentString \<Rightarrow>
          (let p = pos st + 1;
               idx = indexOf_from (CHR 0x22) script p;
               token = substr script p (idx - int p)
           in case current_command st of
                None \<Rightarrow> Some (Inl TypeError)
              | Some cc \<Rightarrow>
                  Some (Inr (st\<lparr>current_command := Some (cc @ [StringArg token]),
                                 pos := nat (idx + 1), state := pop_state (stateStack st),
                                 stateStack := butlast (stateStack st)\<rparr>)))
      | Some ArgumentNumber \<Rightarrow>
          (let idx = scan_number script (pos st);
               token = substr script (pos st) (int idx - int (pos st))
           in case current_command st of
                None \<Rightarrow> Some (Inl TypeError)
              | Some cc \<Rightarrow>
                  Some (Inr (st\<lparr>current_command := Some (cc @ [NumberArg token]),
                                 pos := idx, state := pop_state (stateStack st),
                                 stateStack := butlast (stateStack st)\<rparr>))))"

text \<open>The main loop: \<open>while (p < script.length) switch (state) ...\<close>, then \<open>return commands\<close>.\<close>

partial_function (option) parse_loop ::
  "'c table \<Rightarrow> string \<Rightarrow> string \<Rightarrow> 'c parser \<Rightarrow> (error + 'c pushed list) option" where
  "parse_loop commandTable script filename st =
     (if pos st < length script then
        (case parse_step commandTable script filename st of
           None \<Rightarrow> None
         | Some (Inl err) \<Rightarrow> Some (Inl err)
         | Some (Inr st') \<Rightarrow> parse_loop commandTable script filename st')
      else Some (Inr (commands st)))"

declare parse_loop.simps [code]

definition parse :: "'c table \<Rightarrow> string \<Rightarrow> string \<Rightarrow> (error + 'c pushed list) option" where
  "parse commandTable script filename =
     parse_loop commandTable script filename
       \<lparr>commands = [], current_command = None, pos = 0, state = Some Default, stateStack = [], line = 1\<rparr>"

text \<open>The line of a position: one more than the newlines before it.\<close>

definition line_of :: "string \<Rightarrow> nat \<Rightarrow> nat" where
  "line_of script k = 1 + length (filter (\<lambda>c. c = CHR 0x0A) (take k script))"

section \<open>Vocabulary of the properties\<close>

subsection \<open>The host\<close>

text \<open>
  The host drives an engine through its public surface. A run of the host is a list of
  such calls; it stops at the first exception and has no result when a call does not
  return.
\<close>

datatype 'v host_call =
    Register "ref list" string
  | Run
  | HostGoto int string
  | HostGosub int string
  | HostSetValue string "'v jsvalue"

fun do_call :: "'v host_call \<Rightarrow> 'v engine \<Rightarrow> (error + 'v engine) option" where
  "do_call (Register cmds script_name) e = Some (Engine_register cmds script_name e)"
| "do_call Run e = Engine_run e"
| "do_call (HostGoto idx script_name) e = Some (Engine_goto idx script_name e)"
| "do_call (HostGosub idx script_name) e = Some (Inr (Engine_gosub idx script_name e))"
| "do_call (HostSetValue name v) e = Some (Inr (setValue name v e))"

fun host_calls :: "'v host_call list \<Rightarrow> 'v engine \<Rightarrow> (error + 'v engine) option" where
  "host_calls [] e = Some (Inr e)"
| "host_calls (c # cs) e =
     (case do_call c e of
        None \<Rightarrow> None
      | Some (Inl err) \<Rightarrow> Some (Inl err)
      | Some (Inr e') \<Rightarrow> host_calls cs e')"

text \<open>
  Whether a call returned normally, the state it returned (\<open>d\<close> otherwise), and the
  exception it ended with, if any.
\<close>

fun returned :: "(error + 'a) option \<Rightarrow> bool" where
  "returned (Some (Inr x)) = True"
| "returned other = False"

fun result_of :: "(error + 'a) option \<Rightarrow> 'a \<Rightarrow> 'a" where
  "result_of (Some (Inr x)) d = x"
| "result_of other d = d"

fun thrown :: "(error + 'a) option \<Rightarrow> error option" where
  "thrown (Some (Inl err)) = Some err"
| "thrown other = None"

subsection \<open>Traces\<close>

text \<open>The calls that activate the command object \<open>r\<close>: \<open>init\<close>, then \<open>start\<close>.\<close>

definition activation :: "ref \<Rightarrow> event list" where
  "activation r = [Init (Fetched r), Start (Fetched r)]"

text \<open>The object on which a call is made.\<close>

fun target :: "event \<Rightarrow> current" where
  "target (Init c) = c"
| "target (Start c) = c"
| "target (Update c) = c"
| "target (Finish c) = c"
| "target (OnRegistered c) = c"

text \<open>
  How a tick of the Player \<open>self\<close> ends: \<open>em\<close> is the state in which its loop is
  left, \<open>e'\<close> the state in which the tick returns. When the current command of the
  Player is finished in \<open>em\<close>, no further call is made: the tick returns in \<open>em\<close> (the
  loop was left at a command that sets \<open>isBreak\<close>), or it halts the Player at the next
  index (the sequence is exhausted). When it is unfinished, \<open>update\<close> is called on it;
  and \<open>finish\<close> is called after that exactly when the current command of the Player is
  then finished, on that command, which is the updated command or the Ready sentinel
  (the update has reset the Player).
\<close>

definition tick_end :: "ref \<Rightarrow> 'v engine \<Rightarrow> 'v engine \<Rightarrow> bool" where
  "tick_end self em e' =
     (let c = currentCommand (players em self) in
      if isFinished (command_of em c) then
        trace e' = trace em
        \<and> (e' = em
           \<or> e' = set_currentCommand self HaltSentinel
                  (set_programCounter self (programCounter (players em self) + 1) em))
      else
        (\<exists>e1. call_update c em = Inr e1 \<and> trace e1 = trace em @ [Update c]
           \<and> (let c1 = currentCommand (players e1 self) in
                if isFinished (command_of e1 c1) then
                  (c1 = c \<or> c1 = ReadySentinel) \<and> call_finish c1 e1 = Inr e'
                  \<and> trace e' = trace em @ [Update c, Finish c1]
                else e' = e1)))"

text \<open>
  Reading a trace from the left, starting in state \<open>s\<close>: whether \<open>finish\<close> has been
  called on the object \<open>r\<close> since its last \<open>init\<close>, and whether no \<open>finish\<close> on \<open>r\<close>
  came while that was already so.
\<close>

fun finish_seen :: "ref \<Rightarrow> bool \<Rightarrow> event list \<Rightarrow> bool" where
  "finish_seen r s [] = s"
| "finish_seen r s (ev # evs) =
     finish_seen r (if ev = Init (Fetched r) then False else if ev = Finish (Fetched r) then True else s) evs"

fun finish_once :: "ref \<Rightarrow> bool \<Rightarrow> event list \<Rightarrow> bool" where
  "finish_once r s [] = True"
| "finish_once r s (ev # evs) =
     (if ev = Init (Fetched r) then finish_once r False evs
      else if ev = Finish (Fetched r) then \<not> s \<and> finish_once r True evs
      else finish_once r s evs)"

text \<open>
  Whether every \<open>finish\<close> of a trace comes directly after an \<open>update\<close>, on the updated
  command or on the Ready sentinel; \<open>prev\<close> is the call before the trace.
\<close>

fun finish_follows_update :: "event option \<Rightarrow> event list \<Rightarrow> bool" where
  "finish_follows_update prev [] = True"
| "finish_follows_update prev (ev # evs) =
     ((case ev of
         Finish c' \<Rightarrow> (case prev of Some (Update c) \<Rightarrow> c' = c \<or> c' = ReadySentinel | _ \<Rightarrow> False)
       | _ \<Rightarrow> True)
      \<and> finish_follows_update (Some ev) evs)"

text \<open>The instances of \<open>OneShotCommand\<close>: they are finished whatever is called on them.\<close>

fun is_one_shot :: "'v command \<Rightarrow> bool" where
  "is_one_shot CommandReady = True"
| "is_one_shot (CommandLabel name) = True"
| "is_one_shot (OneShotCommand b) = True"
| "is_one_shot c = False"

text \<open>
  What holds of the trace and the store of command objects in every state the host can
  reach from a new engine over \<open>store\<close>: every \<open>finish\<close> comes directly after an
  \<open>update\<close>; \<open>finish\<close> comes at most once after an \<open>init\<close> of the same object; an
  object on which it came is finished; and an object that is an instance of
  \<open>OneShotCommand\<close> stays as it is and has had no \<open>finish\<close>.
\<close>

definition lifecycle_inv :: "(ref \<Rightarrow> 'v command) \<Rightarrow> 'v engine \<Rightarrow> bool" where
  "lifecycle_inv store e =
     (finish_follows_update None (trace e)
      \<and> (\<forall>r. finish_once r False (trace e)
            \<and> (finish_seen r False (trace e) \<longrightarrow> isFinished (heap e r))
            \<and> (is_one_shot (store r) \<longrightarrow> heap e r = store r \<and> Finish (Fetched r) \<notin> set (trace e))))"

subsection \<open>Plain commands, suspended players\<close>

text \<open>A call that does not move a Player.\<close>

fun plain_action :: "'v action \<Rightarrow> bool" where
  "plain_action (Goto idx script_name) = False"
| "plain_action (Gosub idx script_name) = False"
| "plain_action a = True"

text \<open>A command none of whose methods, called by a tick, moves a Player.\<close>

definition plain_command :: "'v command \<Rightarrow> bool" where
  "plain_command c = (list_all plain_action (start_body c) \<and> list_all plain_action (update_body c)
     \<and> list_all plain_action (finish_body c))"

text \<open>
  The Player \<open>c\<close> waits on the call stack, on top of the entries \<open>pre\<close>, in the state
  \<open>pl\<close>, and is not the active Player; \<open>resumed\<close> is the situation after its return.
\<close>

definition suspended :: "ref \<Rightarrow> player \<Rightarrow> ref option list \<Rightarrow> 'v engine \<Rightarrow> bool" where
  "suspended c pl pre e =
     ((\<exists>post. callStack e = pre @ Some c # post \<and> Some c \<notin> set post)
      \<and> player e \<noteq> Some c \<and> c < next_player e \<and> players e c = pl)"

definition resumed :: "ref \<Rightarrow> player \<Rightarrow> ref option list \<Rightarrow> 'v engine \<Rightarrow> bool" where
  "resumed c pl pre e = (player e = Some c \<and> callStack e = pre \<and> players e c = pl)"

text \<open>
  The state after \<open>n\<close> ticks of the engine after none of which the Player \<open>c\<close> is the
  active one: ticks of a subroutine, or of subroutines of it, while \<open>c\<close> waits.
\<close>

fun waits :: "nat \<Rightarrow> ref \<Rightarrow> 'v engine \<Rightarrow> 'v engine option" where
  "waits 0 c e = Some e"
| "waits (Suc n) c e =
     (case Engine_run e of
        Some (Inr e1) \<Rightarrow> if player e1 = Some c then None else waits n c e1
      | _ \<Rightarrow> None)"

subsection \<open>Concrete engines\<close>

text \<open>A store of one-shot \<open>Log\<close> commands.\<close>

definition hello_store :: "ref \<Rightarrow> unit command" where
  "hello_store = (\<lambda>r. Log ''Hello'')"

text \<open>A store of labels named \<open>x\<close>.\<close>

definition label_store :: "ref \<Rightarrow> unit command" where
  "label_store = (\<lambda>r. CommandLabel ''x'')"

definition slash_engine :: "unit engine" where
  "slash_engine = result_of (host_calls [Register [] ''main'', Register [0] []] (Engine_new label_store))
     (Engine_new label_store)"

definition two_script_engine :: "unit engine" where
  "two_script_engine = result_of (host_calls [Register [] ''main'', Register [0] ''sub''] (Engine_new label_store))
     (Engine_new label_store)"

definition main_label_engine :: "unit engine" where
  "main_label_engine = result_of (Some (Engine_register [0] ''main'' (Engine_new label_store)))
     (Engine_new label_store)"

text \<open>The sequence of the entry point: a \<open>Log\<close> and a \<open>CommandHalt\<close>.\<close>

definition demo_store :: "ref \<Rightarrow> unit command" where
  "demo_store = (\<lambda>r. CommandHalt)(0 := Log ''Hello'')"

definition demo_engine :: "unit engine" where
  "demo_engine = result_of (host_calls [Register [0, 1] ''default''] (Engine_new demo_store)) (Engine_new demo_store)"

definition demo_halted :: "unit engine" where
  "demo_halted = result_of (Engine_run demo_engine) demo_engine"

text \<open>The store of a one-shot command at 0 and, elsewhere, commands that stop in their first update.\<close>

definition stopper_store :: "ref \<Rightarrow> unit command" where
  "stopper_store = (\<lambda>r. ContinuousCommand \<lparr>brk = False, on_registered = [], on_start = [],
       on_update = [StopCommand], on_finish = []\<rparr> False)(0 := Log ''Hello'')"

definition stopper_engine :: "unit engine" where
  "stopper_engine = result_of (host_calls [Register [0, 1] ''default''] (Engine_new stopper_store))
     (Engine_new stopper_store)"

definition stopper_ticked :: "unit engine" where
  "stopper_ticked = result_of (Player_run 0 stopper_engine) stopper_engine"

definition stopper_done :: "unit engine" where
  "stopper_done = result_of (host_calls [Register [0, 1] ''default'', Run, Run] (Engine_new stopper_store))
     (Engine_new stopper_store)"

text \<open>A one-shot engine after registration and \<open>n\<close> ticks.\<close>

definition hello_ticks :: "nat \<Rightarrow> unit engine" where
  "hello_ticks n = result_of (host_calls (Register [0] ''default'' # replicate n Run) (Engine_new hello_store))
     (Engine_new hello_store)"

text \<open>
  An engine of continuous commands that call \<open>stopCommand\<close> in their \<open>start\<close>, and one
  of continuous commands that call \<open>goto(0, "default")\<close> in their \<open>update\<close>, after
  registration and \<open>n\<close> ticks.
\<close>

definition eager_store :: "ref \<Rightarrow> unit command" where
  "eager_store = (\<lambda>r. ContinuousCommand \<lparr>brk = False, on_registered = [], on_start = [StopCommand],
       on_update = [], on_finish = []\<rparr> False)"

definition eager_ticks :: "nat \<Rightarrow> unit engine" where
  "eager_ticks n = result_of (host_calls (Register [0] ''default'' # replicate n Run) (Engine_new eager_store))
     (Engine_new eager_store)"

definition rewind_store :: "ref \<Rightarrow> unit command" where
  "rewind_store = (\<lambda>r. ContinuousCommand \<lparr>brk = False, on_registered = [], on_start = [],
       on_update = [Goto 0 ''default''], on_finish = []\<rparr> False)"

definition rewind_ticks :: "nat \<Rightarrow> unit engine" where
  "rewind_ticks n = result_of (host_calls (Register [0] ''default'' # replicate n Run) (Engine_new rewind_store))
     (Engine_new rewind_store)"

text \<open>
  A caller script whose first command calls \<open>gosub(0, "sub")\<close> from its \<open>start\<close>, with
  the default \<open>isBreak\<close> (\<open>jump_store\<close>) and with \<open>isBreak\<close> true (\<open>break_store\<close>); its
  other commands log. The subroutine of \<open>jump_store\<close> logs; that of \<open>break_store\<close> is
  a continuous command that stops in its first \<open>update\<close>.
\<close>

definition jump_store :: "ref \<Rightarrow> unit command" where
  "jump_store = (\<lambda>r. Log ''in sub'')(
     0 := OneShotCommand \<lparr>brk = False, on_registered = [], on_start = [Gosub 0 ''sub''],
            on_update = [], on_finish = []\<rparr>,
     1 := Log ''a'', 2 := Log ''b'')"

definition jump_ticks :: "nat \<Rightarrow> unit engine" where
  "jump_ticks n = result_of (host_calls ([Register [0, 1, 2] ''default'', Register [3] ''sub''] @ replicate n Run)
       (Engine_new jump_store))
     (Engine_new jump_store)"

definition break_store :: "ref \<Rightarrow> unit command" where
  "break_store = (\<lambda>r. ContinuousCommand \<lparr>brk = False, on_registered = [], on_start = [],
       on_update = [StopCommand], on_finish = []\<rparr> False)(
     0 := OneShotCommand \<lparr>brk = True, on_registered = [], on_start = [Gosub 0 ''sub''],
            on_update = [], on_finish = []\<rparr>,
     1 := Log ''a'', 2 := Log ''b'')"

definition break_registered :: "unit engine" where
  "break_registered = result_of (host_calls [Register [0, 1, 2] ''default'', Register [3] ''sub'']
       (Engine_new break_store))
     (Engine_new break_store)"

text \<open>The state in which the first command of \<open>break_registered\<close> calls \<open>gosub\<close>.\<close>

definition break_calling :: "unit engine" where
  "break_calling = log_event (Start (Fetched 0))
     (call_init 0 (set_currentCommand 0 (Fetched 0) (set_programCounter 0 0 break_registered)))"

text \<open>
  The ticks after that call: the state after the first, in which the subroutine has
  not ended; the state in which the second tick of the subroutine's Player returns; the
  state in which the second tick of the engine returns; and the state after the third.
\<close>

definition break_waiting :: "unit engine" where
  "break_waiting = result_of (Engine_run (Engine_gosub 0 ''sub'' break_calling)) break_calling"

definition break_halted :: "unit engine" where
  "break_halted = result_of (Player_run 1 break_waiting) break_waiting"

definition break_returned :: "unit engine" where
  "break_returned = result_of (Engine_run break_waiting) break_waiting"

definition break_resumed :: "unit engine" where
  "break_resumed = result_of (Engine_run break_returned) break_returned"

text \<open>
  The factory table \<open>{Foo: ...}\<close>, an object literal whose one own property is the
  factory of the command \<open>Foo\<close> (a command is the record of its call), and two scripts
  whose third line is the call \<open>Zzz()\<close>: in the first the line before it is empty, in
  the second the first newline stands inside the string of the call of \<open>Foo\<close>.
\<close>

definition blank_line_script :: string where
  "blank_line_script = ''Foo()'' @ [CHR 0x0A, CHR 0x0A] @ ''Zzz()''"

definition foo_table :: "(string \<times> arg list) table" where
  "foo_table = object_literal [(''Foo'', \<lambda>args. (''Foo'', args))]"

definition multiline_script :: string where
  "multiline_script = ''Foo('' @ [CHR 0x22] @ ''a'' @ [CHR 0x0A] @ ''b'' @ [CHR 0x22] @ '')''
     @ [CHR 0x0A] @ ''Zzz()''"

section \<open>Properties\<close>

subsection \<open>Evaluation and frame lemmas\<close>

lemma returned_result: "returned x \<Longrightarrow> x = Some (Inr (result_of x d))"
  by (cases "(x, d)" rule: result_of.cases) simp_all

lemma command_of_heap: "heap e' = heap e \<Longrightarrow> command_of e' c = command_of e c"
  by (cases c) (simp_all add: command_of_def)

lemma command_of_log_event [simp]: "command_of (log_event ev e) c = command_of e c"
  by (rule command_of_heap) (simp add: log_event_def)

lemma trace_log_event [simp]: "trace (log_event ev e) = trace e @ [ev]"
  by (simp add: log_event_def)

lemma log_event_fields [simp]:
  "heap (log_event ev e) = heap e" "sequences (log_event ev e) = sequences e"
  "player (log_event ev e) = player e" "callStack (log_event ev e) = callStack e"
  "next_player (log_event ev e) = next_player e" "labelTable (log_event ev e) = labelTable e"
  "players (log_event ev e) = players e"
  by (simp_all add: log_event_def)

lemma Player_isHalted_log_event [simp]: "Player_isHalted (log_event ev e) p = Player_isHalted e p"
  by (simp add: Player_isHalted_def)

lemma set_fields [simp]:
  "sequences (set_programCounter self n e) = sequences e"
  "sequences (set_currentCommand self c e) = sequences e"
  "heap (set_programCounter self n e) = heap e"
  "heap (set_currentCommand self c e) = heap e"
  "trace (set_programCounter self n e) = trace e"
  "trace (set_currentCommand self c e) = trace e"
  "players (set_programCounter self n e) self = (players e self)\<lparr>programCounter := n\<rparr>"
  "players (set_currentCommand self c e) self = (players e self)\<lparr>currentCommand := c\<rparr>"
  by (simp_all add: set_programCounter_def set_currentCommand_def)

lemma call_init_fields [simp]:
  "sequences (call_init r e) = sequences e" "players (call_init r e) = players e"
  "trace (call_init r e) = trace e @ [Init (Fetched r)]"
  "heap (call_init r e) = (heap e)(r := command_init (heap e r))"
  by (simp_all add: call_init_def)

lemma fetchCommand_sequences: "sequences e' = sequences e \<Longrightarrow> fetchCommand e' sq i = fetchCommand e sq i"
  by (simp add: fetchCommand_def split: option.splits property.splits)

lemma Sequence_length_sequences:
  "sequences e' = sequences e \<Longrightarrow> Sequence_length e' sq = Sequence_length e sq"
  by (simp add: Sequence_length_def split: option.splits property.splits)

lemma fetch_beyond:
  "Sequence_length e sq = Inr len \<Longrightarrow> length_le len i \<Longrightarrow> \<forall>r. fetchCommand e sq i \<noteq> Inr (Some r)"
  by (auto simp: Sequence_length_def fetchCommand_def length_le_def split: option.splits property.splits)

lemma isFinished_stopCommand: "isFinished c \<Longrightarrow> isFinished (stopCommand c)"
  by (cases c) simp_all

subsection \<open>The value store\<close>

text \<open>
  C10 fails on the code. For every key but \<open>__proto__\<close>, reading the key after
  writing it gives the written value, and the write leaves every other key as it was.
  The key \<open>__proto__\<close> of a new engine is different: a primitive value written to it
  is dropped, and the read gives the object \<open>Object.prototype\<close>; an object written to
  it becomes the prototype of the store, so that another key, here \<open>hp\<close>, which read as
  \<open>undefined\<close> before, then reads as the property of that object.
\<close>

theorem getValue_setValue:
  "(k \<noteq> ''__proto__'' \<longrightarrow>
      getValue k (setValue k v e) = Value v
      \<and> (\<forall>k'. k' \<noteq> k \<longrightarrow> getValue k' (setValue k v e) = getValue k' e))
   \<and> getValue ''__proto__'' (setValue ''__proto__'' (Primitive x) (Engine_new store)) = PrototypeObject
   \<and> getValue ''hp'' (Engine_new store) = Value Undefined
   \<and> getValue ''hp'' (setValue ''__proto__'' (Object [(''hp'', Primitive x)]) (Engine_new store))
       = Value (Primitive x)"
  by (auto simp: getValue_def setValue_def ValueContainer_get_def ValueContainer_set_def
      Engine_new_def reaches_setter_def ObjectPrototype_get_def object_prototype_names_def
      split: option.splits prototype.splits)

theorem getValue_setValue_witness:
  "getValue ''hp'' (setValue ''hp'' (Primitive (3::nat)) (Engine_new (\<lambda>r. CommandHalt))) = Value (Primitive 3)
   \<and> getValue ''mp'' (setValue ''hp'' (Primitive (3::nat)) (Engine_new (\<lambda>r. CommandHalt)))
       = getValue ''mp'' (Engine_new (\<lambda>r. CommandHalt))
   \<and> getValue ''__proto__'' (setValue ''__proto__'' (Primitive (3::nat)) (Engine_new (\<lambda>r. CommandHalt)))
       = PrototypeObject"
  using getValue_setValue [where k = "''hp''" and v = "Primitive (3::nat)"
      and e = "Engine_new (\<lambda>r. CommandHalt)" and x = "3::nat" and store = "\<lambda>r. CommandHalt"]
  by simp

subsection \<open>Labels\<close>

text \<open>
  No member of \<open>Object.prototype\<close> has a slash in its name, and every key of the label
  table has one: a read of the label table finds an own property or nothing.
\<close>

lemma member_names_have_no_slash:
  "n \<in> set object_prototype_names \<Longrightarrow> CHR ''/'' \<notin> set n"
  by (auto simp: object_prototype_names_def)

lemma fullname_has_slash: "CHR ''/'' \<in> set (fullname script_name name)"
  by (simp add: fullname_def)

lemma indexOf_notin: "c \<notin> set s \<Longrightarrow> indexOf c s = - 1"
  by (induction s) (auto simp: Let_def)

lemma indexOf_in: "c \<in> set s \<Longrightarrow> 0 \<le> indexOf c s"
  by (induction s) (auto simp: Let_def)

lemma indexOf_pos_iff: "0 < indexOf c s \<longleftrightarrow> (\<exists>x xs. s = x # xs \<and> x \<noteq> c \<and> c \<in> set xs)"
proof (cases s)
  case Nil
  then show ?thesis by simp
next
  case (Cons x xs)
  show ?thesis
  proof (cases "c \<in> set xs")
    case True
    with Cons indexOf_in [of c xs] show ?thesis by (auto simp: Let_def)
  next
    case False
    with Cons indexOf_notin [of c xs] show ?thesis by (auto simp: Let_def)
  qed
qed

lemma isFullname_iff: "isFullname name \<longleftrightarrow> (\<exists>x xs. name = x # xs \<and> x \<noteq> CHR ''/'' \<and> CHR ''/'' \<in> set xs)"
  by (simp add: isFullname_def indexOf_pos_iff)

text \<open>
  C6, as the code has it. A name with a slash after its first character is looked up as
  it is. A name that starts with a slash is not taken for a full name: it is qualified
  with the script name of the active Player like a name without a slash.
\<close>

theorem getLabel_slash:
  "(name = x # xs \<and> x \<noteq> CHR ''/'' \<and> CHR ''/'' \<in> set xs \<longrightarrow> getLabel name e = Inr (labelTable e name))
   \<and> (name = CHR ''/'' # xs \<and> player e = Some p \<and> sequence (players e p) = Own sn
        \<longrightarrow> getLabel name e = Inr (labelTable e (fullname sn name)))"
  by (auto simp: getLabel_def isFullname_iff Player_scriptName_def string_of_def)

theorem getLabel_slash_witness:
  "getLabel ''sub/x'' two_script_engine = Inr (labelTable two_script_engine ''sub/x'')
   \<and> getLabel ''/x'' slash_engine = Inr (labelTable slash_engine (fullname ''main'' ''/x''))"
proof -
  have "player slash_engine = Some 0" "sequence (players slash_engine 0) = Own ''main''"
    by (code_simp, code_simp)
  with getLabel_slash [of "''sub/x''" "CHR ''s''" "''ub/x''" two_script_engine]
    getLabel_slash [of "''/x''" _ "''x''" slash_engine 0 "''main''"]
  show ?thesis by simp
qed

text \<open>
  C6, as the claim has it, fails: a label registered under the empty script name has the
  full name \<open>/x\<close>, and looking that name up does not find it.
\<close>

theorem getLabel_leading_slash_counterexample:
  "returned (host_calls [Register [] ''main'', Register [0] []] (Engine_new label_store))
   \<and> labelTable slash_engine ''/x'' = Some \<lparr>scriptName = [], labelName = ''x'', index = 0\<rparr>
   \<and> getLabel ''/x'' slash_engine = Inr None"
  by code_simp

subsection \<open>Engine.register\<close>

lemma exec_action_total:
  "player e \<noteq> None \<Longrightarrow>
     \<exists>e'. exec_action this a e = Inr e' \<and> player e' \<noteq> None \<and> trace e' = trace e
        \<and> sequences e' = sequences e \<and> labelTable e' = labelTable e"
  by (cases a; cases this)
     (auto simp: Engine_goto_def Engine_gosub_def Player_new_def setValue_def Let_def)

lemma exec_body_total:
  "player e \<noteq> None \<Longrightarrow>
     \<exists>e'. exec_body this as e = Inr e' \<and> player e' \<noteq> None \<and> trace e' = trace e
        \<and> sequences e' = sequences e \<and> labelTable e' = labelTable e"
proof (induction as arbitrary: e)
  case Nil
  then show ?case by simp
next
  case (Cons a as)
  from exec_action_total [OF Cons.prems, of this a] obtain e1 where
    e1: "exec_action this a e = Inr e1" "player e1 \<noteq> None" "trace e1 = trace e"
      "sequences e1 = sequences e" "labelTable e1 = labelTable e" by blast
  from Cons.IH [OF e1(2)] e1 show ?case by auto
qed

lemma notify_registered_total:
  "player e \<noteq> None \<Longrightarrow>
     \<exists>e'. notify_registered rs e = Inr e' \<and> player e' \<noteq> None
        \<and> trace e' = trace e @ map (\<lambda>r. OnRegistered (Fetched r)) rs
        \<and> sequences e' = sequences e \<and> labelTable e' = labelTable e"
proof (induction rs arbitrary: e)
  case Nil
  then show ?case by simp
next
  case (Cons r rs)
  have "player (log_event (OnRegistered (Fetched r)) e) \<noteq> None"
    using Cons.prems by simp
  from exec_body_total [OF this, of "Fetched r" "onRegistered_body (heap e r)"]
  obtain e1 where e1: "call_onRegistered r e = Inr e1" "player e1 \<noteq> None"
      "trace e1 = trace e @ [OnRegistered (Fetched r)]" "sequences e1 = sequences e"
      "labelTable e1 = labelTable e"
    by (auto simp: call_onRegistered_def)
  from Cons.IH [OF e1(2)] e1 show ?case by auto
qed

text \<open>
  A call of \<open>register\<close> returns for every script name that \<open>Object.prototype\<close> has no
  member of, and for a name that the engine has a Sequence of.
\<close>

lemma Engine_register_total:
  assumes "n \<notin> set object_prototype_names \<or> sequences e n \<noteq> None"
  shows "\<exists>e'. Engine_register cmds n e = Inr e' \<and> player e' \<noteq> None
      \<and> sequences e' = (sequences e)(n \<mapsto> (case sequences e n of None \<Rightarrow> [] | Some prog \<Rightarrow> prog) @ cmds)
      \<and> trace e' = trace e @ map (\<lambda>r. OnRegistered (Fetched r))
            ((case sequences e n of None \<Rightarrow> [] | Some prog \<Rightarrow> prog) @ cmds)
      \<and> labelTable e' = index_labels n (heap e)
            ((case sequences e n of None \<Rightarrow> [] | Some prog \<Rightarrow> prog) @ cmds) 0 (labelTable e)"
proof -
  define old where "old = (case sequences e n of None \<Rightarrow> [] | Some prog \<Rightarrow> prog)"
  define e1 where "e1 = (if sequence_ref e n = Missing
                then e\<lparr>sequences := (sequences e)(n \<mapsto> [])\<rparr> else e)"
  define e2 where "e2 = (if player e1 = None
                then (let (p, e') = Player_new (sequence_ref e1 n) 0 e1 in e'\<lparr>player := Some p\<rparr>)
                else e1)"
  define program where "program = Sequence_register cmds old"
  define e4 where "e4 = e2\<lparr>sequences := (sequences e2)(n \<mapsto> program),
     labelTable := index_labels n (heap e2) program 0 (labelTable e2)\<rparr>"
  have s1: "sequences e1 n = Some old" "sequences e1 = (sequences e)(n \<mapsto> old)"
    "trace e1 = trace e" "heap e1 = heap e" "labelTable e1 = labelTable e"
    using assms
    by (auto simp: e1_def old_def sequence_ref_def get_property_def split: option.splits)
  have s2: "player e2 \<noteq> None" "sequences e2 = sequences e1" "trace e2 = trace e1" "heap e2 = heap e1"
    "labelTable e2 = labelTable e1"
    by (auto simp: e2_def Player_new_def)
  have reg: "Engine_register cmds n e = notify_registered program e4"
    using s1(1) s2(2)
    by (simp add: Engine_register_def Let_def get_property_def program_def e4_def
        flip: e1_def e2_def)
  have "player e4 \<noteq> None" using s2 by (simp add: e4_def)
  from notify_registered_total [OF this, of program] obtain e' where
    "notify_registered program e4 = Inr e'" "player e' \<noteq> None"
    "trace e' = trace e4 @ map (\<lambda>r. OnRegistered (Fetched r)) program"
    "sequences e' = sequences e4" "labelTable e' = labelTable e4" by blast
  then show ?thesis using reg s1 s2
    by (auto simp: e4_def program_def Sequence_register_def simp flip: old_def)
qed

lemma Engine_register_inherited:
  assumes "n \<in> set object_prototype_names" "sequences e n = None"
  shows "Engine_register cmds n e = Inl TypeError"
proof -
  have "sequence_ref e n = Inherited n" using assms by (simp add: sequence_ref_def get_property_def)
  then show ?thesis using assms
    by (simp add: Engine_register_def Let_def get_property_def Player_new_def)
qed

subsection \<open>Unqualified label names\<close>

lemma index_labels_other:
  "\<forall>j<length rs. store (rs ! j) \<noteq> CommandLabel nm \<Longrightarrow>
     index_labels sn store rs i tbl (fullname sn nm) = tbl (fullname sn nm)"
proof (induction rs arbitrary: i tbl)
  case Nil
  then show ?case by simp
next
  case (Cons r rs)
  from Cons.prems have r: "store r \<noteq> CommandLabel nm" and rest: "\<forall>j<length rs. store (rs ! j) \<noteq> CommandLabel nm"
    by auto
  from r Cons.IH [OF rest] show ?case
    by (cases "store r") (simp_all add: fullname_def)
qed

lemma index_labels_last:
  "i < length rs \<Longrightarrow> store (rs ! i) = CommandLabel nm \<Longrightarrow>
   \<forall>j. i < j \<and> j < length rs \<longrightarrow> store (rs ! j) \<noteq> CommandLabel nm \<Longrightarrow>
     index_labels sn store rs i0 tbl (fullname sn nm) = Some \<lparr>scriptName = sn, labelName = nm, index = i0 + i\<rparr>"
proof (induction rs arbitrary: i i0 tbl)
  case Nil
  then show ?case by simp
next
  case (Cons r rs)
  show ?case
  proof (cases i)
    case 0
    with Cons.prems have r: "store r = CommandLabel nm"
      and rest: "\<forall>j<length rs. store (rs ! j) \<noteq> CommandLabel nm" by auto
    from index_labels_other [OF rest] r 0 show ?thesis by simp
  next
    case (Suc i')
    with Cons.prems have "i' < length rs" "store (rs ! i') = CommandLabel nm"
      "\<forall>j. i' < j \<and> j < length rs \<longrightarrow> store (rs ! j) \<noteq> CommandLabel nm" by auto
    from Cons.IH [OF this] Suc show ?thesis by simp
  qed
qed

text \<open>
  C8. The active Player has a Sequence, that of the script \<open>sn\<close> (without an active
  Player, or with one that was sent to a script that is not registered, \<open>getLabel\<close>
  throws a TypeError for a name without a slash). Then a name without a slash is looked
  up under the key \<open>sn/name\<close>. After a \<open>gosub\<close> into a registered script \<open>sub\<close> the key
  is \<open>sub/name\<close>. This is the key that \<open>register\<close> writes: after a call of \<open>register\<close>
  for the script \<open>sn\<close>, the name of a label of its sequence gives the record of the
  last label of that name with its position, and a name that no label of the sequence
  has and that had no entry before gives the missing result. In every case a key without
  an entry gives the missing result and no error.
\<close>

theorem getLabel_unqualified:
  "CHR ''/'' \<notin> set name \<Longrightarrow>
     (player e = Some p \<and> sequence (players e p) = Own sn
        \<longrightarrow> getLabel name e = Inr (labelTable e (sn @ ''/'' @ name)))
   \<and> (sequences e sub \<noteq> None
        \<longrightarrow> getLabel name (Engine_gosub idx sub e) = Inr (labelTable e (sub @ ''/'' @ name)))
   \<and> (player e = Some p \<and> sequence (players e p) = Own sn \<and> labelTable e (sn @ ''/'' @ name) = None
        \<longrightarrow> getLabel name e = Inr None)
   \<and> (Engine_register cmds sn e0 = Inr e \<and> player e = Some p \<and> sequence (players e p) = Own sn
        \<and> sequences e sn = Some prog \<longrightarrow>
          (\<forall>i. i < length prog \<and> heap e0 (prog ! i) = CommandLabel name
               \<and> (\<forall>j. i < j \<and> j < length prog \<longrightarrow> heap e0 (prog ! j) \<noteq> CommandLabel name)
             \<longrightarrow> getLabel name e = Inr (Some \<lparr>scriptName = sn, labelName = name, index = i\<rparr>))
          \<and> ((\<forall>j. j < length prog \<longrightarrow> heap e0 (prog ! j) \<noteq> CommandLabel name)
               \<and> labelTable e0 (sn @ ''/'' @ name) = None
             \<longrightarrow> getLabel name e = Inr None))"
proof -
  assume slash: "CHR ''/'' \<notin> set name"
  have key: "getLabel name e' = Inr (labelTable e' (sn' @ ''/'' @ name))"
    if "player e' = Some p'" "sequence (players e' p') = Own sn'" for e' :: "'a engine" and p' sn'
    using that slash
    by (auto simp: getLabel_def isFullname_iff Player_scriptName_def string_of_def fullname_def)
  have sub: "getLabel name (Engine_gosub idx sub e) = Inr (labelTable e (sub @ ''/'' @ name))"
    if "sequences e sub \<noteq> None"
  proof -
    have "player (Engine_gosub idx sub e) = Some (next_player e)"
      "sequence (players (Engine_gosub idx sub e) (next_player e)) = Own sub"
      "labelTable (Engine_gosub idx sub e) = labelTable e"
      using that
      by (auto simp: Engine_gosub_def Player_new_def Player_reset_def sequence_ref_def
          get_property_def Let_def)
    with key [of "Engine_gosub idx sub e" "next_player e" sub] show ?thesis by simp
  qed
  have reg: "labelTable e = index_labels sn (heap e0) prog 0 (labelTable e0)"
    if r: "Engine_register cmds sn e0 = Inr e" and sq: "sequences e sn = Some prog"
  proof -
    have "sn \<notin> set object_prototype_names \<or> sequences e0 sn \<noteq> None"
      using r Engine_register_inherited [of sn e0 cmds] by auto
    from Engine_register_total [OF this, of cmds] r sq show ?thesis by auto
  qed
  show ?thesis
  proof (intro conjI impI allI)
    assume "player e = Some p \<and> sequence (players e p) = Own sn"
    then show "getLabel name e = Inr (labelTable e (sn @ ''/'' @ name))" using key by blast
  next
    assume "sequences e sub \<noteq> None"
    then show "getLabel name (Engine_gosub idx sub e) = Inr (labelTable e (sub @ ''/'' @ name))"
      by (rule sub)
  next
    assume "player e = Some p \<and> sequence (players e p) = Own sn \<and> labelTable e (sn @ ''/'' @ name) = None"
    then show "getLabel name e = Inr None" using key [of e p sn] by simp
  next
    fix i
    assume a: "Engine_register cmds sn e0 = Inr e \<and> player e = Some p \<and> sequence (players e p) = Own sn
        \<and> sequences e sn = Some prog"
      and l: "i < length prog \<and> heap e0 (prog ! i) = CommandLabel name
               \<and> (\<forall>j. i < j \<and> j < length prog \<longrightarrow> heap e0 (prog ! j) \<noteq> CommandLabel name)"
    from l index_labels_last [of i prog "heap e0" name sn 0 "labelTable e0"]
    have "index_labels sn (heap e0) prog 0 (labelTable e0) (fullname sn name)
        = Some \<lparr>scriptName = sn, labelName = name, index = i\<rparr>" by simp
    with reg a key [of e p sn]
    show "getLabel name e = Inr (Some \<lparr>scriptName = sn, labelName = name, index = i\<rparr>)"
      by (simp add: fullname_def)
  next
    assume a: "Engine_register cmds sn e0 = Inr e \<and> player e = Some p \<and> sequence (players e p) = Own sn
        \<and> sequences e sn = Some prog"
      and l: "(\<forall>j. j < length prog \<longrightarrow> heap e0 (prog ! j) \<noteq> CommandLabel name)
               \<and> labelTable e0 (sn @ ''/'' @ name) = None"
    from l index_labels_other [of prog "heap e0" name sn 0 "labelTable e0"]
    have "index_labels sn (heap e0) prog 0 (labelTable e0) (fullname sn name) = None"
      by (simp add: fullname_def)
    with reg a key [of e p sn]
    show "getLabel name e = Inr None" by (simp add: fullname_def)
  qed
qed

theorem getLabel_unqualified_witness:
  "getLabel ''x'' two_script_engine = Inr (labelTable two_script_engine ''main/x'')
   \<and> getLabel ''x'' (Engine_gosub 0 ''sub'' two_script_engine) = Inr (labelTable two_script_engine ''sub/x'')
   \<and> labelTable two_script_engine ''sub/x'' = Some \<lparr>scriptName = ''sub'', labelName = ''x'', index = 0\<rparr>
   \<and> getLabel ''x'' two_script_engine = Inr None
   \<and> Engine_register [0] ''main'' (Engine_new label_store) = Inr main_label_engine
   \<and> getLabel ''x'' main_label_engine = Inr (Some \<lparr>scriptName = ''main'', labelName = ''x'', index = 0\<rparr>)
   \<and> getLabel ''y'' main_label_engine = Inr None"
proof -
  have h: "player two_script_engine = Some 0" "sequence (players two_script_engine 0) = Own ''main''"
    "sequences two_script_engine ''sub'' \<noteq> None"
    "labelTable two_script_engine ''main/x'' = None"
    "labelTable two_script_engine ''sub/x'' = Some \<lparr>scriptName = ''sub'', labelName = ''x'', index = 0\<rparr>"
    by (code_simp, code_simp, code_simp, code_simp, code_simp)
  have "returned (Some (Engine_register [0] ''main'' (Engine_new label_store)))" by code_simp
  from returned_result [OF this, of "Engine_new label_store"]
  have r: "Engine_register [0] ''main'' (Engine_new label_store) = Inr main_label_engine"
    by (simp add: main_label_engine_def)
  have m: "player main_label_engine = Some 0" "sequence (players main_label_engine 0) = Own ''main''"
    "sequences main_label_engine ''main'' = Some [0]"
    by (code_simp, code_simp, code_simp)
  have l: "heap (Engine_new label_store) ([0] ! 0) = CommandLabel ''x''"
    "labelTable (Engine_new label_store) ''main/y'' = None"
    "\<forall>j. j < length [0::nat] \<longrightarrow> heap (Engine_new label_store) ([0] ! j) \<noteq> CommandLabel ''y''"
    by (simp_all add: Engine_new_def label_store_def)
  have x: "CHR ''/'' \<notin> set ''x''" and y: "CHR ''/'' \<notin> set ''y''" by simp_all
  note a = getLabel_unqualified [OF x, of two_script_engine 0 "''main''" "''sub''" 0]
  note b = getLabel_unqualified [OF x, of main_label_engine 0 "''main''" "''sub''" 0 "[0]" "Engine_new label_store" "[0]"]
  note c = getLabel_unqualified [OF y, of main_label_engine 0 "''main''" "''sub''" 0 "[0]" "Engine_new label_store" "[0]"]
  from a h have 1: "getLabel ''x'' two_script_engine = Inr (labelTable two_script_engine ''main/x'')"
    "getLabel ''x'' (Engine_gosub 0 ''sub'' two_script_engine) = Inr (labelTable two_script_engine ''sub/x'')"
    "getLabel ''x'' two_script_engine = Inr None"
    by simp_all
  have l0: "0 < length [0::nat] \<and> heap (Engine_new label_store) ([0] ! 0) = CommandLabel ''x''
      \<and> (\<forall>j. 0 < j \<and> j < length [0::nat] \<longrightarrow> heap (Engine_new label_store) ([0] ! j) \<noteq> CommandLabel ''x'')"
    using l(1) by auto
  from b r m l0 have 2: "getLabel ''x'' main_label_engine
      = Inr (Some \<lparr>scriptName = ''main'', labelName = ''x'', index = 0\<rparr>)"
    by blast
  have l1: "labelTable (Engine_new label_store) (''main'' @ ''/'' @ ''y'') = None" using l(2) by simp
  from c r m l(3) l1 have 3: "getLabel ''y'' main_label_engine = Inr None"
    by blast
  from 1 2 3 h(5) r show ?thesis by simp
qed

subsection \<open>A halted engine\<close>

lemma Player_run_halted:
  assumes "Player_isHalted e p"
  shows "Player_run p e = Some (Inr (log_event (Update (currentCommand (players e p))) e))"
proof -
  have c: "command_of e (currentCommand (players e p)) = CommandHalt"
    using assms by (simp add: Player_isHalted_def)
  have "Player_update p e = Inr (log_event (Update (currentCommand (players e p))) e)"
    using c by (simp add: Player_update_def call_update_def)
  then show ?thesis
    by (subst Player_run.simps) (simp add: c)
qed

lemma Engine_run_halted:
  assumes "player e = Some p" "Player_isHalted e p" "callStack e = []"
  shows "Engine_run e = Some (Inr (log_event (Update (currentCommand (players e p))) e))"
  using assms Player_run_halted [OF assms(2)]
  by (simp add: Engine_run_def)

text \<open>
  C9. From a state whose active Player is halted and whose call stack is empty, any
  number \<open>n\<close> of \<open>Engine.run\<close> calls return, and the state after them is the state before
  but for the record of \<open>n\<close> calls of the empty \<open>update\<close> of the halt command: the engine
  is still halted, no program counter moved, and no \<open>start\<close> or \<open>finish\<close> was called.
\<close>

theorem halted_engine_stays_halted:
  assumes "player e = Some p" "Player_isHalted e p" "callStack e = []"
  shows "Engine_runs n e = Some (Inr (e\<lparr>trace := trace e @ replicate n (Update (currentCommand (players e p)))\<rparr>))
     \<and> Engine_isHalted (e\<lparr>trace := trace e @ replicate n (Update (currentCommand (players e p)))\<rparr>) = Inr True"
  using assms
proof (induction n arbitrary: e)
  case 0
  then show ?case by (simp add: Engine_isHalted_def flip: log_event_def)
next
  case (Suc n)
  let ?e1 = "log_event (Update (currentCommand (players e p))) e"
  have h: "player ?e1 = Some p" "Player_isHalted ?e1 p" "callStack ?e1 = []"
    using Suc.prems by simp_all
  from Suc.IH [OF h] Engine_run_halted [OF Suc.prems] show ?case
    by (simp add: log_event_def replicate_append_same)
qed

theorem halted_engine_stays_halted_witness:
  "Player_isHalted demo_halted 0
   \<and> Engine_runs 3 demo_halted
       = Some (Inr (demo_halted\<lparr>trace := trace demo_halted @ replicate 3 (Update (currentCommand (players demo_halted 0)))\<rparr>))
   \<and> Engine_isHalted (demo_halted\<lparr>trace := trace demo_halted @ replicate 3 (Update (currentCommand (players demo_halted 0)))\<rparr>)
       = Inr True"
proof -
  have h: "player demo_halted = Some 0" "Player_isHalted demo_halted 0" "callStack demo_halted = []"
    by (code_simp, code_simp, code_simp)
  from halted_engine_stays_halted [OF h, of 3] h(2) show ?thesis by simp
qed

subsection \<open>One tick of a Player\<close>

lemma exec_action_frame:
  assumes "exec_action this a e = Inr e'"
  shows "trace e' = trace e \<and> sequences e' = sequences e
     \<and> (\<forall>p. players e' p = players e p \<or> currentCommand (players e' p) = ReadySentinel)
     \<and> (\<forall>r. isFinished (heap e r) \<longrightarrow> isFinished (heap e' r))"
  using assms
  by (cases a; cases this)
     (auto simp: Engine_goto_def Engine_gosub_def Player_new_def Player_reset_def setValue_def Let_def
        isFinished_stopCommand split: option.splits)

lemma exec_body_frame:
  "exec_body this as e = Inr e' \<Longrightarrow>
     trace e' = trace e \<and> sequences e' = sequences e
     \<and> (\<forall>p. players e' p = players e p \<or> currentCommand (players e' p) = ReadySentinel)
     \<and> (\<forall>r. isFinished (heap e r) \<longrightarrow> isFinished (heap e' r))"
proof (induction as arbitrary: e)
  case Nil
  then show ?case by simp
next
  case (Cons a as)
  from Cons.prems obtain e1 where a: "exec_action this a e = Inr e1" and r: "exec_body this as e1 = Inr e'"
    by (auto split: sum.splits)
  from exec_action_frame [OF a] Cons.IH [OF r] show ?case
    by metis
qed

text \<open>
  Induction over the iterations of the loop of \<open>Player.run\<close>, for the calls that
  return: one case for each way an iteration ends.
\<close>

lemma Player_run_cases_induct [consumes 1, case_names Update Return Throw Break Continue]:
  assumes run: "Player_run self e = Some y"
    and upd: "\<And>e. \<not> isFinished (command_of e (currentCommand (players e self))) \<Longrightarrow>
              P e (Player_update self e)"
    and ret: "\<And>e e'. isFinished (command_of e (currentCommand (players e self))) \<Longrightarrow>
              Player_advance self e = Return e' \<Longrightarrow> P e (Inr e')"
    and thr: "\<And>e err. isFinished (command_of e (currentCommand (players e self))) \<Longrightarrow>
              Player_advance self e = Throw err \<Longrightarrow> P e (Inl err)"
    and brk: "\<And>e e'. isFinished (command_of e (currentCommand (players e self))) \<Longrightarrow>
              Player_advance self e = Break e' \<Longrightarrow> P e (Player_update self e')"
    and cont: "\<And>e e1 y. isFinished (command_of e (currentCommand (players e self))) \<Longrightarrow>
              Player_advance self e = Continue e1 \<Longrightarrow> Player_run self e1 = Some y \<Longrightarrow>
              P e1 y \<Longrightarrow> P e y"
  shows "P e y"
proof -
  let ?Q = "\<lambda>s e y. Player_run s e = Some y \<and> (s = self \<longrightarrow> P e y)"
  have "?Q self e y"
  proof (rule Player_run.raw_induct [where P = ?Q, OF _ run])
    fix f s e y
    assume IH: "\<And>s e y. f s e = Some y \<Longrightarrow> Player_run s e = Some y \<and> (s = self \<longrightarrow> P e y)"
      and eq: "(if isFinished (command_of e (currentCommand (players e s)))
          then case Player_advance s e of
                 Return e' \<Rightarrow> Some (Inr e')
               | Throw err \<Rightarrow> Some (Inl err)
               | Break e' \<Rightarrow> Some (Player_update s e')
               | Continue e' \<Rightarrow> f s e'
          else Some (Player_update s e)) = Some y"
    show "Player_run s e = Some y \<and> (s = self \<longrightarrow> P e y)"
    proof (cases "isFinished (command_of e (currentCommand (players e s)))")
      case False
      with eq have y: "y = Player_update s e" by simp
      with False upd show ?thesis by (subst Player_run.simps) auto
    next
      case True
      show ?thesis
      proof (cases "Player_advance s e")
        case (Return e')
        with True eq ret show ?thesis by (subst Player_run.simps) auto
      next
        case (Throw err)
        with True eq thr show ?thesis by (subst Player_run.simps) auto
      next
        case (Break e')
        with True eq brk show ?thesis by (subst Player_run.simps) auto
      next
        case (Continue e1)
        with True eq have "f s e1 = Some y" by simp
        from IH [OF this] have r: "Player_run s e1 = Some y" and p: "s = self \<longrightarrow> P e1 y" by auto
        from True Continue r have "Player_run s e = Some y" by (subst Player_run.simps) simp
        moreover have "s = self \<longrightarrow> P e y" using cont True Continue r p by auto
        ultimately show ?thesis by simp
      qed
    qed
  qed
  then show ?thesis by simp
qed

lemma Player_advance_Return:
  assumes "Player_advance self e = Return e'"
  shows "(\<forall>r. fetchCommand e (sequence (players e self)) (programCounter (players e self) + 1) \<noteq> Inr (Some r))
     \<and> e' = set_currentCommand self HaltSentinel (set_programCounter self (programCounter (players e self) + 1) e)"
proof -
  let ?e1 = "set_programCounter self (programCounter (players e self) + 1) e"
  from assms obtain len where
    l: "Sequence_length ?e1 (sequence (players e self)) = Inr len"
      "length_le len (programCounter (players e self) + 1)"
      "e' = set_currentCommand self HaltSentinel ?e1"
    by (auto simp: Player_advance_def Let_def split: sum.splits if_splits option.splits)
  from fetch_beyond [OF l(1,2)] l(3) show ?thesis
    by (simp add: fetchCommand_sequences [of ?e1 e])
qed

lemma Player_advance_started:
  assumes "Player_advance self e = x" "x = Break e' \<or> x = Continue e'"
  shows "\<exists>r. fetchCommand e (sequence (players e self)) (programCounter (players e self) + 1) = Inr (Some r)
     \<and> trace e' = trace e @ activation r"
proof -
  let ?e1 = "set_programCounter self (programCounter (players e self) + 1) e"
  from assms obtain r where
    f: "fetchCommand ?e1 (sequence (players e self)) (programCounter (players e self) + 1) = Inr (Some r)"
    and st: "call_start (Fetched r) (call_init r (set_currentCommand self (Fetched r) ?e1)) = Inr e'"
    by (auto simp: Player_advance_def Let_def split: sum.splits if_splits option.splits)
  from exec_body_frame [OF st [unfolded call_start_def]]
  have "trace e' = trace e @ activation r" by (simp add: activation_def)
  with f show ?thesis by (simp add: fetchCommand_sequences [of ?e1 e])
qed

lemma Player_update_end:
  assumes "Player_update self e = Inr e'"
  shows "tick_end self e e'"
proof (cases "isFinished (command_of e (currentCommand (players e self)))")
  case True
  with assms have "e' = e" by (simp add: Player_update_def)
  with True show ?thesis by (simp add: tick_end_def)
next
  case False
  let ?c = "currentCommand (players e self)"
  from False assms obtain e1 where u: "call_update ?c e = Inr e1"
    by (auto simp: Player_update_def split: sum.splits)
  from exec_body_frame [OF u [unfolded call_update_def]]
  have f1: "trace e1 = trace e @ [Update ?c]"
    "players e1 self = players e self \<or> currentCommand (players e1 self) = ReadySentinel"
    by auto
  let ?c1 = "currentCommand (players e1 self)"
  show ?thesis
  proof (cases "isFinished (command_of e1 ?c1)")
    case fin: True
    with False assms u have fi: "call_finish ?c1 e1 = Inr e'"
      by (simp add: Player_update_def)
    from exec_body_frame [OF fi [unfolded call_finish_def]]
    have f2: "trace e' = trace e1 @ [Finish ?c1]" by auto
    have "?c1 = ?c \<or> ?c1 = ReadySentinel" using f1(2) by auto
    with False u f1(1) fin fi f2 show ?thesis
      by (auto simp: tick_end_def Let_def)
  next
    case nf: False
    with False assms u have "e' = e1" by (simp add: Player_update_def)
    with False u f1(1) nf show ?thesis by (auto simp: tick_end_def Let_def)
  qed
qed

lemma tick_end_trace:
  assumes "tick_end self em e'"
  shows "\<exists>rest. trace e' = trace em @ rest"
  using assms by (auto simp: tick_end_def Let_def split: if_splits)

lemma Player_run_tick:
  assumes "Player_run self e = Some y"
  shows "\<forall>e'. y = Inr e' \<longrightarrow>
     (\<exists>rs em. trace em = trace e @ concat (map activation rs) \<and> tick_end self em e')"
  using assms
proof (induct rule: Player_run_cases_induct)
  case (Update e)
  show ?case
  proof (intro allI impI)
    fix e' assume "Player_update self e = Inr e'"
    from Player_update_end [OF this]
    show "\<exists>rs em. trace em = trace e @ concat (map activation rs) \<and> tick_end self em e'"
      by (intro exI [of _ "[]"] exI [of _ e]) simp
  qed
next
  case (Return e e')
  from Player_advance_Return [OF Return(2)] Return(1)
  have "tick_end self e e'" by (simp add: tick_end_def Let_def)
  then have "\<exists>rs em. trace em = trace e @ concat (map activation rs) \<and> tick_end self em e'"
    by (intro exI [of _ "[]"] exI [of _ e]) simp
  then show ?case by simp
next
  case (Throw e err)
  then show ?case by simp
next
  case (Break e e1)
  show ?case
  proof (intro allI impI)
    fix e' assume "Player_update self e1 = Inr e'"
    from Player_update_end [OF this] have t: "tick_end self e1 e'" .
    from Player_advance_started [OF Break(2)] obtain r where "trace e1 = trace e @ activation r"
      by auto
    with t show "\<exists>rs em. trace em = trace e @ concat (map activation rs) \<and> tick_end self em e'"
      by (intro exI [of _ "[r]"] exI [of _ e1]) simp
  qed
next
  case (Continue e e1 y)
  show ?case
  proof (intro allI impI)
    fix e' assume y: "y = Inr e'"
    with Continue(4) obtain rs em where
      t: "trace em = trace e1 @ concat (map activation rs)" "tick_end self em e'"
      by blast
    from Player_advance_started [OF Continue(2)] obtain r where "trace e1 = trace e @ activation r"
      by auto
    with t show "\<exists>rs em. trace em = trace e @ concat (map activation rs) \<and> tick_end self em e'"
      by (intro exI [of _ "r # rs"] exI [of _ em]) simp
  qed
qed

text \<open>A tick of a Player keeps what the steps it is made of keep.\<close>

lemma Player_run_preserves:
  assumes run: "Player_run self e = Some (Inr e')" and I: "I e"
    and pc: "\<And>e n. I e \<Longrightarrow> I (set_programCounter self n e)"
    and cur: "\<And>e c. I e \<Longrightarrow> I (set_currentCommand self c e)"
    and ini: "\<And>e r. I e \<Longrightarrow> I (call_init r e)"
    and log: "\<And>e ev. I e \<Longrightarrow> I (log_event ev e)"
    and act: "\<And>e this a e'. I e \<Longrightarrow> exec_action this a e = Inr e' \<Longrightarrow> I e'"
  shows "I e'"
proof -
  have body: "I e' " if "I e" "exec_body this as e = Inr e'" for this as e e'
    using that
  proof (induction as arbitrary: e)
    case Nil
    then show ?case by simp
  next
    case (Cons a as)
    from Cons.prems(2) obtain e1 where a: "exec_action this a e = Inr e1"
      and r: "exec_body this as e1 = Inr e'" by (auto split: sum.splits)
    from act [OF Cons.prems(1) a] have "I e1" .
    from Cons.IH [OF this r] show ?case .
  qed
  have adv: "I e'" if "I e" "Player_advance self e = x" "x = Return e' \<or> x = Break e' \<or> x = Continue e'"
    for e e' x
  proof -
    let ?e1 = "set_programCounter self (programCounter (players e self) + 1) e"
    have i1: "I ?e1" using that(1) pc by simp
    from that(2,3) consider "e' = set_currentCommand self HaltSentinel ?e1"
      | r where "call_start (Fetched r) (call_init r (set_currentCommand self (Fetched r) ?e1)) = Inr e'"
      by (auto simp: Player_advance_def Let_def split: sum.splits if_splits option.splits)
    then show ?thesis
    proof cases
      case 1
      then show ?thesis using i1 cur by simp
    next
      case 2
      have "I (log_event (Start (Fetched r)) (call_init r (set_currentCommand self (Fetched r) ?e1)))"
        using i1 cur ini log by simp
      from body [OF this 2 [unfolded call_start_def]] show ?thesis .
    qed
  qed
  have upd: "I e'" if "I e" "Player_update self e = Inr e'" for e e'
  proof (cases "isFinished (command_of e (currentCommand (players e self)))")
    case True
    with that show ?thesis by (simp add: Player_update_def)
  next
    case False
    with that(2) obtain e1 where u: "call_update (currentCommand (players e self)) e = Inr e1"
      by (auto simp: Player_update_def split: sum.splits)
    have i1: "I e1" using body [OF _ u [unfolded call_update_def]] log that(1) by simp
    show ?thesis
    proof (cases "isFinished (command_of e1 (currentCommand (players e1 self)))")
      case True
      with False that(2) u have "call_finish (currentCommand (players e1 self)) e1 = Inr e'"
        by (simp add: Player_update_def)
      from body [OF _ this [unfolded call_finish_def]] log i1 show ?thesis by simp
    next
      case nf: False
      with False that(2) u i1 show ?thesis by (simp add: Player_update_def)
    qed
  qed
  have "\<forall>e'. y = Inr e' \<longrightarrow> I e \<longrightarrow> I e'" if "Player_run self e = Some y" for y
    using that
  proof (induct rule: Player_run_cases_induct)
    case (Update e)
    then show ?case using upd by blast
  next
    case (Return e e')
    then show ?case using adv by blast
  next
    case (Throw e err)
    then show ?case by simp
  next
    case (Break e e')
    then show ?case using adv upd by blast
  next
    case (Continue e e1 y)
    then show ?case using adv by blast
  qed
  with run I show ?thesis by blast
qed

subsection \<open>A one-shot command followed by a halt\<close>

lemma plain_exec_body:
  assumes "list_all plain_action as" "heap e r = OneShotCommand b"
  shows "\<exists>e'. exec_body (Fetched r) as e = Inr e' \<and> players e' = players e \<and> heap e' = heap e
     \<and> sequences e' = sequences e \<and> trace e' = trace e
     \<and> player e' = player e \<and> callStack e' = callStack e"
  using assms
proof (induction as arbitrary: e)
  case Nil
  then show ?case by simp
next
  case (Cons a as)
  from Cons.prems have "\<exists>e1. exec_action (Fetched r) a e = Inr e1 \<and> players e1 = players e \<and> heap e1 = heap e
     \<and> sequences e1 = sequences e \<and> trace e1 = trace e
     \<and> player e1 = player e \<and> callStack e1 = callStack e"
    by (cases a) (auto simp: setValue_def)
  then obtain e1 where e1: "exec_action (Fetched r) a e = Inr e1" "players e1 = players e"
    "heap e1 = heap e" "sequences e1 = sequences e" "trace e1 = trace e"
    "player e1 = player e" "callStack e1 = callStack e" by blast
  from Cons.prems e1 have "list_all plain_action as" "heap e1 r = OneShotCommand b" by simp_all
  from Cons.IH [OF this] e1 show ?case by auto
qed

text \<open>
  C2. A Player that has not ticked, over a sequence of a one-shot command and a halt
  command: one call of \<open>run\<close> returns, has called \<open>start\<close> on the one-shot command, and
  leaves the halt command current, so that the Player is halted; when that Player is the
  active one and nothing waits on the call stack, this is one call of \<open>Engine.run\<close>,
  after which the engine is halted. The one-shot command is an instance of
  \<open>OneShotCommand\<close> with the default \<open>isBreak\<close> whose \<open>start\<close> does not jump (\<open>Log\<close>
  is one).
\<close>

theorem oneshot_then_halt_single_tick:
  assumes sq: "sequences e sn = Some [r1, r2]"
    and fresh: "players e p = Player_reset (Own sn) 0"
    and one: "heap e r1 = OneShotCommand b" "\<not> brk b" "list_all plain_action (on_start b)"
    and halt: "heap e r2 = CommandHalt"
  shows "\<exists>e'. Player_run p e = Some (Inr e')
     \<and> trace e' = trace e @ [Init (Fetched r1), Start (Fetched r1), Init (Fetched r2), Start (Fetched r2),
                              Update (Fetched r2)]
     \<and> currentCommand (players e' p) = Fetched r2 \<and> programCounter (players e' p) = 1
     \<and> Player_isHalted e' p
     \<and> (player e = Some p \<and> callStack e = []
          \<longrightarrow> Engine_run e = Some (Inr e') \<and> Engine_isHalted e' = Inr True)"
proof -
  let ?ea = "call_init r1 (set_currentCommand p (Fetched r1) (set_programCounter p 0 e))"
  have ha: "heap ?ea = heap e" using one(1) by (simp add: fun_upd_idem)
  have ea: "player ?ea = player e" "callStack ?ea = callStack e"
    by (simp_all add: call_init_def set_currentCommand_def set_programCounter_def)
  from plain_exec_body [OF one(3), of "log_event (Start (Fetched r1)) ?ea" r1 b] ha one(1) ea
  obtain e1 where e1: "call_start (Fetched r1) ?ea = Inr e1" "players e1 = players ?ea"
    "heap e1 = heap e" "sequences e1 = sequences e" "trace e1 = trace e @ [Init (Fetched r1), Start (Fetched r1)]"
    "player e1 = player e" "callStack e1 = callStack e"
    by (auto simp: call_start_def command_of_def)
  have pl1: "players e1 p = \<lparr>sequence = Own sn, currentCommand = Fetched r1, programCounter = 0\<rparr>"
    using e1(2) fresh by (simp add: Player_reset_def)
  have adv1: "Player_advance p e = Continue e1"
    using sq fresh e1(1) pl1 e1(3) one
    by (simp add: Player_advance_def Let_def Sequence_length_def fetchCommand_def Player_reset_def
        command_of_def length_le_def)
  let ?eb = "call_init r2 (set_currentCommand p (Fetched r2) (set_programCounter p 1 e1))"
  have hb: "heap ?eb = heap e" using halt e1(3) by (simp add: fun_upd_idem)
  let ?e2 = "log_event (Start (Fetched r2)) ?eb"
  have st2: "call_start (Fetched r2) ?eb = Inr ?e2"
    using hb halt by (simp add: call_start_def command_of_def)
  have pl2: "players ?e2 p = \<lparr>sequence = Own sn, currentCommand = Fetched r2, programCounter = 1\<rparr>"
    using pl1 by simp
  have h2: "heap ?e2 = heap e" using hb by simp
  have adv2: "Player_advance p e1 = Continue ?e2"
    using sq e1(4) pl1 st2 pl2 h2 halt
    by (simp add: Player_advance_def Let_def Sequence_length_def fetchCommand_def command_of_def
        length_le_def)
  let ?e3 = "log_event (Update (Fetched r2)) ?e2"
  have upd: "Player_update p ?e2 = Inr ?e3"
    using pl2 h2 halt by (simp add: Player_update_def call_update_def command_of_def)
  have r3: "Player_run p ?e2 = Some (Inr ?e3)"
    using pl2 h2 halt upd by (subst Player_run.simps) (simp add: command_of_def)
  have r2: "Player_run p e1 = Some (Inr ?e3)"
    using pl1 e1(3) one(1) adv2 r3 by (subst Player_run.simps) (simp add: command_of_def)
  have r1: "Player_run p e = Some (Inr ?e3)"
    using fresh adv1 r2 by (subst Player_run.simps) (simp add: command_of_def Player_reset_def)
  have tr: "trace ?e3 = trace e @ [Init (Fetched r1), Start (Fetched r1), Init (Fetched r2), Start (Fetched r2),
                              Update (Fetched r2)]"
    using e1(5) by simp
  have hl: "Player_isHalted ?e3 p" using pl2 h2 halt by (simp add: Player_isHalted_def command_of_def)
  have e3: "player ?e3 = player e" "callStack ?e3 = callStack e"
    using e1(6,7) by (simp_all add: call_init_def set_currentCommand_def set_programCounter_def)
  have "Engine_run e = Some (Inr ?e3) \<and> Engine_isHalted ?e3 = Inr True"
    if "player e = Some p" "callStack e = []"
    using that r1 hl e3 by (simp add: Engine_run_def Engine_isHalted_def)
  with r1 tr hl pl2 show ?thesis by auto
qed

theorem oneshot_then_halt_single_tick_witness:
  "\<exists>e'. Player_run 0 demo_engine = Some (Inr e')
     \<and> trace e' = trace demo_engine @ [Init (Fetched 0), Start (Fetched 0), Init (Fetched 1), Start (Fetched 1),
                              Update (Fetched 1)]
     \<and> currentCommand (players e' 0) = Fetched 1 \<and> programCounter (players e' 0) = 1
     \<and> Player_isHalted e' 0
     \<and> Engine_run demo_engine = Some (Inr e') \<and> Engine_isHalted e' = Inr True"
proof -
  have h: "sequences demo_engine ''default'' = Some [0, 1]"
    "players demo_engine 0 = Player_reset (Own ''default'') 0"
    "heap demo_engine 0 = OneShotCommand \<lparr>brk = False, on_registered = [], on_start = [ConsoleLog ''Hello''],
       on_update = [], on_finish = []\<rparr>"
    "heap demo_engine 1 = CommandHalt"
    "player demo_engine = Some 0" "callStack demo_engine = []"
    by (code_simp, code_simp, code_simp, code_simp, code_simp, code_simp)
  from oneshot_then_halt_single_tick [OF h(1,2,3) _ _ h(4)] h(5,6) show ?thesis by simp
qed

subsection \<open>When finish is called\<close>

lemma finish_seen_append: "finish_seen r s (xs @ ys) = finish_seen r (finish_seen r s xs) ys"
  by (induction xs arbitrary: s) simp_all

lemma finish_once_append:
  "finish_once r s (xs @ ys) = (finish_once r s xs \<and> finish_once r (finish_seen r s xs) ys)"
  by (induction xs arbitrary: s) auto

lemma finish_follows_update_append:
  "finish_follows_update prev (xs @ ys)
     = (finish_follows_update prev xs
        \<and> finish_follows_update (if xs = [] then prev else Some (last xs)) ys)"
  by (induction xs arbitrary: prev) auto

lemma is_one_shot_fixed:
  assumes "is_one_shot c"
  shows "isFinished c" "command_init c = c" "stopCommand c = c"
  using assms by (cases c; simp)+

lemma inv_same_trace:
  assumes "lifecycle_inv store e" "trace e' = trace e"
    "\<And>r. heap e' r = heap e r \<or> heap e' r = stopCommand (heap e r)"
  shows "lifecycle_inv store e'"
  unfolding lifecycle_inv_def
proof (intro allI conjI impI)
  show "finish_follows_update None (trace e')" using assms(1,2) by (simp add: lifecycle_inv_def)
  fix r
  show "finish_once r False (trace e')" using assms(1,2) by (simp add: lifecycle_inv_def)
  show "isFinished (heap e' r)" if "finish_seen r False (trace e')"
    using that assms(1,2) assms(3) [of r] isFinished_stopCommand [of "heap e r"]
    by (auto simp: lifecycle_inv_def)
  assume o: "is_one_shot (store r)"
  with assms(1) have "heap e r = store r" "Finish (Fetched r) \<notin> set (trace e)"
    by (auto simp: lifecycle_inv_def)
  with assms(2) assms(3) [of r] is_one_shot_fixed(3) [OF o]
  show "heap e' r = store r" "Finish (Fetched r) \<notin> set (trace e')"
    by auto
qed

lemma inv_log_event:
  assumes "lifecycle_inv store e" "\<And>r. ev \<noteq> Init (Fetched r)" "\<And>c. ev \<noteq> Finish c"
  shows "lifecycle_inv store (log_event ev e)"
proof -
  have "case ev of Finish c' \<Rightarrow> False | _ \<Rightarrow> True"
    using assms(3) by (cases ev) auto
  then have "finish_follows_update prev [ev]" for prev
    by (cases ev) auto
  with assms show ?thesis
    by (auto simp: lifecycle_inv_def finish_once_append finish_seen_append
        finish_follows_update_append)
qed

lemma inv_call_init:
  assumes "lifecycle_inv store e"
  shows "lifecycle_inv store (call_init r e)"
  unfolding lifecycle_inv_def
proof (intro allI conjI impI)
  show "finish_follows_update None (trace (call_init r e))"
    using assms by (simp add: lifecycle_inv_def finish_follows_update_append)
  fix r'
  show "finish_once r' False (trace (call_init r e))"
    using assms by (simp add: lifecycle_inv_def finish_once_append)
  show "isFinished (heap (call_init r e) r')" if "finish_seen r' False (trace (call_init r e))"
    using that assms by (auto simp: lifecycle_inv_def finish_seen_append split: if_splits)
  assume o: "is_one_shot (store r')"
  with assms have "heap e r' = store r'" "Finish (Fetched r') \<notin> set (trace e)"
    by (auto simp: lifecycle_inv_def)
  with is_one_shot_fixed(2) [OF o]
  show "heap (call_init r e) r' = store r'" "Finish (Fetched r') \<notin> set (trace (call_init r e))"
    by auto
qed

lemma inv_exec_action:
  assumes "lifecycle_inv store e" "exec_action this a e = Inr e'"
  shows "lifecycle_inv store e'"
proof (rule inv_same_trace [OF assms(1)])
  show "trace e' = trace e" using exec_action_frame [OF assms(2)] by simp
  show "heap e' r = heap e r \<or> heap e' r = stopCommand (heap e r)" for r
    using assms(2)
    by (cases a; cases this)
       (auto simp: Engine_goto_def Engine_gosub_def Player_new_def setValue_def Let_def split: option.splits)
qed

lemma inv_exec_body:
  "lifecycle_inv store e \<Longrightarrow> exec_body this as e = Inr e' \<Longrightarrow> lifecycle_inv store e'"
proof (induction as arbitrary: e)
  case Nil
  then show ?case by simp
next
  case (Cons a as)
  from Cons.prems(2) obtain e1 where a: "exec_action this a e = Inr e1"
    and r: "exec_body this as e1 = Inr e'" by (auto split: sum.splits)
  from Cons.IH [OF inv_exec_action [OF Cons.prems(1) a] r] show ?case .
qed

lemma inv_set:
  "lifecycle_inv store e \<Longrightarrow> lifecycle_inv store (set_programCounter self n e)"
  "lifecycle_inv store e \<Longrightarrow> lifecycle_inv store (set_currentCommand self c e)"
  by (simp_all add: lifecycle_inv_def)

lemma inv_Player_advance:
  assumes "lifecycle_inv store e" "Player_advance self e = x" "x = Return e' \<or> x = Break e' \<or> x = Continue e'"
  shows "lifecycle_inv store e'"
proof -
  let ?e1 = "set_programCounter self (programCounter (players e self) + 1) e"
  from assms(2,3) consider "e' = set_currentCommand self HaltSentinel ?e1"
    | r where "call_start (Fetched r) (call_init r (set_currentCommand self (Fetched r) ?e1)) = Inr e'"
    by (auto simp: Player_advance_def Let_def split: sum.splits if_splits option.splits)
  then show ?thesis
  proof cases
    case 1
    then show ?thesis by (simp add: inv_set assms(1))
  next
    case 2
    have "lifecycle_inv store (log_event (Start (Fetched r)) (call_init r (set_currentCommand self (Fetched r) ?e1)))"
      using assms(1) by (intro inv_log_event inv_call_init inv_set) simp_all
    from inv_exec_body [OF this 2 [unfolded call_start_def]] show ?thesis .
  qed
qed

lemma inv_Player_update:
  assumes inv: "lifecycle_inv store e" and upd: "Player_update self e = Inr e'"
  shows "lifecycle_inv store e'"
proof (cases "isFinished (command_of e (currentCommand (players e self)))")
  case True
  with assms show ?thesis by (simp add: Player_update_def)
next
  case False
  let ?c = "currentCommand (players e self)"
  from False upd obtain e1 where u: "call_update ?c e = Inr e1"
    by (auto simp: Player_update_def split: sum.splits)
  have i0: "lifecycle_inv store (log_event (Update ?c) e)"
    using inv by (intro inv_log_event) simp_all
  have i1: "lifecycle_inv store e1" using inv_exec_body [OF i0 u [unfolded call_update_def]] .
  from exec_body_frame [OF u [unfolded call_update_def]]
  have f1: "trace e1 = trace e @ [Update ?c]"
    "players e1 self = players e self \<or> currentCommand (players e1 self) = ReadySentinel"
    by auto
  let ?c1 = "currentCommand (players e1 self)"
  show ?thesis
  proof (cases "isFinished (command_of e1 ?c1)")
    case nf: False
    with False upd u i1 show ?thesis by (simp add: Player_update_def)
  next
    case fin: True
    with False upd u have fi: "call_finish ?c1 e1 = Inr e'" by (simp add: Player_update_def)
    have cc: "?c1 = ?c \<or> ?c1 = ReadySentinel" using f1(2) by auto
    have ffu: "finish_follows_update None (trace (log_event (Finish ?c1) e1))"
      using i1 f1(1) cc
      by (auto simp: lifecycle_inv_def finish_follows_update_append)
    have "lifecycle_inv store (log_event (Finish ?c1) e1)"
    proof (cases ?c1)
      case ReadySentinel
      with i1 ffu show ?thesis
        by (auto simp: lifecycle_inv_def finish_once_append finish_seen_append)
    next
      case HaltSentinel
      with i1 ffu show ?thesis
        by (auto simp: lifecycle_inv_def finish_once_append finish_seen_append)
    next
      case (Fetched r)
      with f1(2) have c: "?c = Fetched r" by auto
      with False have nf: "\<not> isFinished (heap e r)" by (simp add: command_of_def)
      with inv is_one_shot_fixed(1) [of "store r"]
      have ns: "\<not> finish_seen r False (trace e)" and no: "\<not> is_one_shot (store r)"
        by (auto simp: lifecycle_inv_def)
      from fin Fetched have fr: "isFinished (heap e1 r)" by (simp add: command_of_def)
      show ?thesis
        unfolding lifecycle_inv_def
      proof (intro allI conjI impI)
        show "finish_follows_update None (trace (log_event (Finish ?c1) e1))" by (rule ffu)
        fix r'
        show "finish_once r' False (trace (log_event (Finish ?c1) e1))"
          using i1 ns f1(1) Fetched
          by (auto simp: lifecycle_inv_def finish_once_append finish_seen_append)
        show "isFinished (heap (log_event (Finish ?c1) e1) r')"
          if "finish_seen r' False (trace (log_event (Finish ?c1) e1))"
          using that i1 fr Fetched by (auto simp: lifecycle_inv_def finish_seen_append split: if_splits)
        assume "is_one_shot (store r')"
        with i1 no Fetched
        show "heap (log_event (Finish ?c1) e1) r' = store r'"
          "Finish (Fetched r') \<notin> set (trace (log_event (Finish ?c1) e1))"
          by (auto simp: lifecycle_inv_def)
      qed
    qed
    from inv_exec_body [OF this fi [unfolded call_finish_def]] show ?thesis .
  qed
qed

lemma inv_Player_run:
  assumes "Player_run self e = Some y"
  shows "\<forall>e'. y = Inr e' \<longrightarrow> lifecycle_inv store e \<longrightarrow> lifecycle_inv store e'"
  using assms
proof (induct rule: Player_run_cases_induct)
  case (Update e)
  then show ?case using inv_Player_update by blast
next
  case (Return e e')
  then show ?case using inv_Player_advance by blast
next
  case (Throw e err)
  then show ?case by simp
next
  case (Break e e')
  then show ?case using inv_Player_advance inv_Player_update by blast
next
  case (Continue e e1 y)
  then show ?case using inv_Player_advance by blast
qed

lemma inv_Engine_run:
  assumes "lifecycle_inv store e" "Engine_run e = Some (Inr e')"
  shows "lifecycle_inv store e'"
proof -
  from assms(2) obtain p e1 where run: "Player_run p e = Some (Inr e1)"
    and e': "e' = e1 \<or> e' = e1\<lparr>player := last (callStack e1), callStack := butlast (callStack e1)\<rparr>"
    by (auto simp: Engine_run_def split: option.splits sum.splits if_splits)
  from inv_Player_run [OF run] assms(1) have "lifecycle_inv store e1" by blast
  with e' show ?thesis by (auto simp: lifecycle_inv_def)
qed

lemma inv_notify_registered:
  "lifecycle_inv store e \<Longrightarrow> notify_registered rs e = Inr e' \<Longrightarrow> lifecycle_inv store e'"
proof (induction rs arbitrary: e)
  case Nil
  then show ?case by simp
next
  case (Cons r rs)
  from Cons.prems(2) obtain e1 where c: "call_onRegistered r e = Inr e1"
    and n: "notify_registered rs e1 = Inr e'" by (auto split: sum.splits)
  have "lifecycle_inv store (log_event (OnRegistered (Fetched r)) e)"
    using Cons.prems(1) by (intro inv_log_event) simp_all
  from inv_exec_body [OF this c [unfolded call_onRegistered_def]] have "lifecycle_inv store e1" .
  from Cons.IH [OF this n] show ?case .
qed

lemma inv_Engine_register:
  assumes "lifecycle_inv store e" "Engine_register cmds n e = Inr e'"
  shows "lifecycle_inv store e'"
proof -
  from assms(2) obtain e3 prog where n: "notify_registered prog e3 = Inr e'"
    and t: "trace e3 = trace e" "heap e3 = heap e"
    by (auto simp: Engine_register_def Let_def Player_new_def split: if_splits property.splits)
  have "lifecycle_inv store e3" using assms(1) t by (simp add: lifecycle_inv_def)
  from inv_notify_registered [OF this n] show ?thesis .
qed

lemma inv_do_call:
  assumes "lifecycle_inv store e" "do_call c e = Some (Inr e')"
  shows "lifecycle_inv store e'"
proof (cases c)
  case (Register cmds n)
  with assms inv_Engine_register show ?thesis by auto
next
  case Run
  with assms inv_Engine_run show ?thesis by auto
next
  case (HostGoto i n)
  with assms show ?thesis by (auto simp: Engine_goto_def lifecycle_inv_def split: option.splits)
next
  case (HostGosub i n)
  with assms show ?thesis by (auto simp: Engine_gosub_def Player_new_def Let_def lifecycle_inv_def)
next
  case (HostSetValue n v)
  with assms show ?thesis by (auto simp: setValue_def lifecycle_inv_def)
qed

lemma inv_host_calls:
  "lifecycle_inv store e \<Longrightarrow> host_calls cs e = Some (Inr e') \<Longrightarrow> lifecycle_inv store e'"
proof (induction cs arbitrary: e)
  case Nil
  then show ?case by simp
next
  case (Cons c cs)
  from Cons.prems(2) obtain e1 where c: "do_call c e = Some (Inr e1)" and r: "host_calls cs e1 = Some (Inr e')"
    by (auto split: option.splits sum.splits)
  from Cons.IH [OF inv_do_call [OF Cons.prems(1) c] r] show ?case .
qed

lemma inv_Engine_new: "lifecycle_inv store (Engine_new store)"
  by (simp add: lifecycle_inv_def Engine_new_def)




subsection \<open>Return from a subroutine\<close>

lemma suspended_exec_action:
  assumes "suspended c pl pre e" "exec_action this a e = Inr e'"
  shows "suspended c pl pre e'"
proof (cases a)
  case (Goto idx sn)
  with assms show ?thesis
    by (auto simp: suspended_def Engine_goto_def split: option.splits)
next
  case (Gosub idx sn)
  from assms(1) obtain post where
    p: "callStack e = pre @ Some c # post" "Some c \<notin> set post" "player e \<noteq> Some c"
      "c < next_player e" "players e c = pl"
    by (auto simp: suspended_def)
  have "callStack e' = pre @ Some c # (post @ [player e])" "Some c \<notin> set (post @ [player e])"
    "player e' = Some (next_player e)" "next_player e' = next_player e + 1" "players e' c = pl"
    using assms(2) Gosub p by (auto simp: Engine_gosub_def Player_new_def Let_def)
  then show ?thesis using p(4) unfolding suspended_def
    by (metis less_SucI Suc_eq_plus1 less_irrefl option.inject)
next
  case (SetValue n v)
  with assms show ?thesis by (auto simp: suspended_def setValue_def)
next
  case StopCommand
  with assms show ?thesis by (cases this) (auto simp: suspended_def)
next
  case (ConsoleLog m)
  with assms show ?thesis by (auto simp: suspended_def)
qed

lemma oneshot_exec_action:
  assumes "heap e r = OneShotCommand b" "exec_action this a e = Inr e'"
  shows "heap e' r = OneShotCommand b"
  using assms
  by (cases a; cases this)
     (auto simp: Engine_goto_def Engine_gosub_def Player_new_def setValue_def Let_def split: option.splits)

lemma suspended_Player_run:
  assumes "Player_run self e = Some (Inr e')" "self \<noteq> c"
    "suspended c pl pre e \<and> heap e r = OneShotCommand b"
  shows "suspended c pl pre e' \<and> heap e' r = OneShotCommand b"
proof (rule Player_run_preserves [where I = "\<lambda>e. suspended c pl pre e \<and> heap e r = OneShotCommand b", OF assms(1) assms(3)])
  show "\<And>e n. suspended c pl pre e \<and> heap e r = OneShotCommand b \<Longrightarrow>
      suspended c pl pre (set_programCounter self n e) \<and> heap (set_programCounter self n e) r = OneShotCommand b"
    using assms(2) by (auto simp: suspended_def set_programCounter_def)
  show "\<And>e ca. suspended c pl pre e \<and> heap e r = OneShotCommand b \<Longrightarrow>
      suspended c pl pre (set_currentCommand self ca e) \<and> heap (set_currentCommand self ca e) r = OneShotCommand b"
    using assms(2) by (auto simp: suspended_def set_currentCommand_def)
  show "\<And>e ra. suspended c pl pre e \<and> heap e r = OneShotCommand b \<Longrightarrow>
      suspended c pl pre (call_init ra e) \<and> heap (call_init ra e) r = OneShotCommand b"
    by (auto simp: suspended_def call_init_def)
  show "\<And>e ev. suspended c pl pre e \<and> heap e r = OneShotCommand b \<Longrightarrow>
      suspended c pl pre (log_event ev e) \<and> heap (log_event ev e) r = OneShotCommand b"
    by (auto simp: suspended_def)
  show "\<And>e this a e'. suspended c pl pre e \<and> heap e r = OneShotCommand b \<Longrightarrow> exec_action this a e = Inr e' \<Longrightarrow>
      suspended c pl pre e' \<and> heap e' r = OneShotCommand b"
    using suspended_exec_action oneshot_exec_action by blast
qed

lemma suspended_Engine_run:
  assumes "Engine_run e = Some (Inr e')" "suspended c pl pre e \<and> heap e r = OneShotCommand b"
  shows "(if player e' = Some c then resumed c pl pre e' else suspended c pl pre e') \<and> heap e' r = OneShotCommand b"
proof -
  from assms(2) have nc: "player e \<noteq> Some c" by (simp add: suspended_def)
  from assms(1) obtain p e1 where p: "player e = Some p" and run: "Player_run p e = Some (Inr e1)"
    by (auto simp: Engine_run_def split: option.splits sum.splits)
  from nc p have "p \<noteq> c" by auto
  from suspended_Player_run [OF run this assms(2)]
  have s1: "suspended c pl pre e1" and h1: "heap e1 r = OneShotCommand b" by auto
  from s1 obtain post where
    st: "callStack e1 = pre @ Some c # post" "Some c \<notin> set post" "player e1 \<noteq> Some c" "players e1 c = pl"
      "c < next_player e1"
    by (auto simp: suspended_def)
  from assms(1) p run consider "e' = e1"
    | "e' = e1\<lparr>player := last (callStack e1), callStack := butlast (callStack e1)\<rparr>"
    by (auto simp: Engine_run_def split: option.splits if_splits)
  then show ?thesis
  proof cases
    case 1
    with s1 h1 st show ?thesis by simp
  next
    case 2
    show ?thesis
    proof (cases "post = []")
      case True
      with 2 st h1 show ?thesis by (simp add: resumed_def)
    next
      case False
      then have l: "last (callStack e1) = last post" "butlast (callStack e1) = pre @ Some c # butlast post"
        using st(1) by (simp_all add: butlast_append)
      have "last post \<in> set post" using False by simp
      with st(2) have n1: "last post \<noteq> Some c" by auto
      have "Some c \<notin> set (butlast post)" using st(2) by (meson in_set_butlastD)
      with 2 l n1 st h1 show ?thesis by (auto simp: suspended_def)
    qed
  qed
qed

lemma waits_suspended:
  assumes "waits n c e = Some e'" "suspended c pl pre e \<and> heap e r = OneShotCommand b"
  shows "suspended c pl pre e' \<and> heap e' r = OneShotCommand b"
  using assms
proof (induction n arbitrary: e)
  case 0
  then show ?case by simp
next
  case (Suc n)
  from Suc.prems(1) obtain e1 where run: "Engine_run e = Some (Inr e1)"
    and nc: "player e1 \<noteq> Some c" and w: "waits n c e1 = Some e'"
    by (auto split: option.splits sum.splits if_splits)
  from suspended_Engine_run [OF run Suc.prems(2)] nc
  have "suspended c pl pre e1 \<and> heap e1 r = OneShotCommand b" by simp
  from Suc.IH [OF w this] show ?case .
qed

text \<open>
  The tick that leaves the active Player halted with \<open>c\<close> on top of the call stack
  pops the call stack and makes \<open>c\<close> active.
\<close>

lemma halting_tick_pops:
  assumes s: "suspended c pl pre e \<and> heap e r = OneShotCommand b"
    and p: "player e = Some s" and run: "Player_run s e = Some (Inr eh)"
    and h: "player eh = Some s'" "Player_isHalted eh s'" "last (callStack eh) = Some c"
  shows "Engine_run e = Some (Inr (eh\<lparr>player := Some c, callStack := pre\<rparr>))
     \<and> players eh c = pl \<and> heap eh r = OneShotCommand b"
proof -
  from s p have "s \<noteq> c" by (auto simp: suspended_def)
  from suspended_Player_run [OF run this s]
  have s1: "suspended c pl pre eh" and h1: "heap eh r = OneShotCommand b" by auto
  from s1 obtain post where
    st: "callStack eh = pre @ Some c # post" "Some c \<notin> set post" "players eh c = pl"
    by (auto simp: suspended_def)
  have "post = []"
  proof (rule ccontr)
    assume ne: "post \<noteq> []"
    then have "last (callStack eh) = last post" using st(1) by simp
    moreover have "last post \<in> set post" using ne by simp
    ultimately show False using h(3) st(2) by simp
  qed
  with st have cs: "callStack eh = pre @ [Some c]" by simp
  then have "Engine_run e = Some (Inr (eh\<lparr>player := Some c, callStack := pre\<rparr>))"
    using p run h by (simp add: Engine_run_def)
  with st(3) h1 show ?thesis by simp
qed

lemma resume_advance:
  assumes p: "player e1 = Some c"
    and fin: "isFinished (command_of e1 (currentCommand (players e1 c)))"
    and k: "programCounter (players e1 c) = k"
    and run: "Engine_run e1 = Some (Inr e2)"
  shows "case fetchCommand e1 (sequence (players e1 c)) (k + 1) of
           Inr (Some r') \<Rightarrow> (\<exists>evs. trace e2 = trace e1 @ activation r' @ evs)
         | _ \<Rightarrow> trace e2 = trace e1 \<and> programCounter (players e2 c) = k + 1 \<and> Player_isHalted e2 c"
proof -
  from run p obtain em where pr: "Player_run c e1 = Some (Inr em)"
    and e2: "trace e2 = trace em" "players e2 = players em" "heap e2 = heap em"
    by (auto simp: Engine_run_def split: option.splits sum.splits if_splits)
  have halted: "Player_isHalted e2 c = Player_isHalted em c"
    using e2 by (simp add: Player_isHalted_def command_of_heap [of e2 em])
  have started: ?thesis
    if adv: "Player_advance c e1 = x" "x = Break e4 \<or> x = Continue e4"
      and rest: "\<exists>rest. trace em = trace e4 @ rest" for x e4
  proof -
    from Player_advance_started [OF adv] k obtain r' where
      f: "fetchCommand e1 (sequence (players e1 c)) (k + 1) = Inr (Some r')"
      and t: "trace e4 = trace e1 @ activation r'" by auto
    from rest t e2 have "\<exists>evs. trace e2 = trace e1 @ activation r' @ evs" by auto
    with f show ?thesis by simp
  qed
  show ?thesis
  proof (cases "Player_advance c e1")
    case (Return e')
    with pr fin have em: "em = e'" by (subst (asm) Player_run.simps) simp
    from Player_advance_Return [OF Return] k
    have nf: "\<forall>r. fetchCommand e1 (sequence (players e1 c)) (k + 1) \<noteq> Inr (Some r)"
      and e': "e' = set_currentCommand c HaltSentinel (set_programCounter c (k + 1) e1)" by auto
    have "trace e2 = trace e1 \<and> programCounter (players e2 c) = k + 1 \<and> Player_isHalted e2 c"
      using em e' e2 halted by (simp add: Player_isHalted_def command_of_def)
    with nf show ?thesis by (auto split: sum.splits option.splits)
  next
    case (Throw err)
    with pr fin show ?thesis by (subst (asm) Player_run.simps) simp
  next
    case (Break e4)
    with pr fin have "Player_update c e4 = Inr em" by (subst (asm) Player_run.simps) simp
    from tick_end_trace [OF Player_update_end [OF this]] started [OF Break] show ?thesis by simp
  next
    case (Continue e4)
    with pr fin have "Player_run c e4 = Some (Inr em)" by (subst (asm) Player_run.simps) simp
    from Player_run_tick [OF this] obtain rs ex where
      "trace ex = trace e4 @ concat (map activation rs)" "tick_end c ex em" by blast
    with tick_end_trace [of c ex em] have "\<exists>rest. trace em = trace e4 @ rest" by auto
    from started [OF Continue _ this] show ?thesis by simp
  qed
qed

lemma suspended_Engine_gosub:
  assumes "player e0 = Some c" "c < next_player e0"
  shows "suspended c (players e0 c) (callStack e0) (Engine_gosub idx sub e0)"
  using assms by (auto simp: suspended_def Engine_gosub_def Player_new_def Let_def)

subsection \<open>Ticks over plain commands\<close>

lemma plain_command_kept:
  "plain_command (stopCommand c) = plain_command c"
  "plain_command (command_init c) = plain_command c"
  by (cases c; simp add: plain_command_def)+

lemma plain_action_runs:
  assumes "plain_action a"
  shows "\<exists>e'. exec_action this a e = Inr e' \<and> players e' = players e \<and> sequences e' = sequences e
     \<and> trace e' = trace e \<and> player e' = player e \<and> callStack e' = callStack e
     \<and> (\<forall>x. plain_command (heap e' x) = plain_command (heap e x))"
  using assms by (cases a; cases this) (auto simp: setValue_def plain_command_kept)

lemma plain_body_runs:
  assumes "list_all plain_action as"
  shows "\<exists>e'. exec_body this as e = Inr e' \<and> players e' = players e \<and> sequences e' = sequences e
     \<and> trace e' = trace e \<and> player e' = player e \<and> callStack e' = callStack e
     \<and> (\<forall>x. plain_command (heap e' x) = plain_command (heap e x))"
  using assms
proof (induction as arbitrary: e)
  case Nil
  then show ?case by simp
next
  case (Cons a as)
  from Cons.prems have a: "plain_action a" and as: "list_all plain_action as" by simp_all
  from plain_action_runs [OF a, of this e] obtain e1 where
    e1: "exec_action this a e = Inr e1" "players e1 = players e" "sequences e1 = sequences e"
      "trace e1 = trace e" "player e1 = player e" "callStack e1 = callStack e"
      "\<forall>x. plain_command (heap e1 x) = plain_command (heap e x)" by blast
  from Cons.IH [OF as, of e1] e1 show ?case by auto
qed

text \<open>The end of a tick at a plain command: the calls are made on that command.\<close>

lemma plain_update:
  assumes cur: "currentCommand (players e c) = Fetched r" and pl: "plain_command (heap e r)"
  shows "\<exists>e' rest. Player_update c e = Inr e' \<and> trace e' = trace e @ rest
     \<and> target ` set rest \<subseteq> {Fetched r}
     \<and> players e' = players e \<and> player e' = player e \<and> callStack e' = callStack e"
proof (cases "isFinished (heap e r)")
  case True
  with cur have "Player_update c e = Inr e" by (simp add: Player_update_def command_of_def)
  then show ?thesis by (intro exI [of _ e] exI [of _ "[]"]) simp
next
  case False
  from pl have "list_all plain_action (update_body (heap e r))" by (simp add: plain_command_def)
  from plain_body_runs [OF this, of "Fetched r" "log_event (Update (Fetched r)) e"]
  obtain e1 where e1: "call_update (Fetched r) e = Inr e1" "players e1 = players e"
    "trace e1 = trace e @ [Update (Fetched r)]" "player e1 = player e" "callStack e1 = callStack e"
    "plain_command (heap e1 r)"
    using pl by (auto simp: call_update_def command_of_def)
  show ?thesis
  proof (cases "isFinished (heap e1 r)")
    case nf: False
    with False cur e1 have "Player_update c e = Inr e1"
      by (simp add: Player_update_def command_of_def)
    with e1 show ?thesis
      by (intro exI [of _ e1] exI [of _ "[Update (Fetched r)]"]) simp
  next
    case fin: True
    from e1(6) have "list_all plain_action (finish_body (heap e1 r))" by (simp add: plain_command_def)
    from plain_body_runs [OF this, of "Fetched r" "log_event (Finish (Fetched r)) e1"]
    obtain e2 where e2: "call_finish (Fetched r) e1 = Inr e2" "players e2 = players e1"
      "trace e2 = trace e1 @ [Finish (Fetched r)]" "player e2 = player e1" "callStack e2 = callStack e1"
      by (auto simp: call_finish_def command_of_def)
    from False cur e1 fin e2 have "Player_update c e = Inr e2"
      by (simp add: Player_update_def command_of_def)
    with e1 e2 show ?thesis
      by (intro exI [of _ e2] exI [of _ "[Update (Fetched r), Finish (Fetched r)]"]) simp
  qed
qed

text \<open>
  A tick of the Player \<open>c\<close> that stands at a finished command at the index \<open>pc\<close> of
  its sequence, when the commands after \<open>pc\<close> are plain: the tick returns, it begins
  with the activation of the command at \<open>pc + 1\<close>, and all its calls are made on
  commands after \<open>pc\<close>.
\<close>

lemma plain_tick:
  assumes "sequence (players e c) = Own sn" "sequences e sn = Some prog"
    and "\<forall>x\<in>set (drop (nat (pc + 1)) prog). plain_command (heap e x)"
    and "programCounter (players e c) = pc" "- 1 \<le> pc"
    and "isFinished (command_of e (currentCommand (players e c)))"
  shows "\<exists>e' evs. Player_run c e = Some (Inr e') \<and> trace e' = trace e @ evs
     \<and> target ` set evs \<subseteq> Fetched ` set (drop (nat (pc + 1)) prog)
     \<and> (nat (pc + 1) < length prog \<longrightarrow> take 2 evs = activation (prog ! nat (pc + 1)))
     \<and> players e' c = (players e' c)\<lparr>sequence := Own sn\<rparr>
     \<and> player e' = player e \<and> callStack e' = callStack e \<and> pc < programCounter (players e' c)"
  using assms
proof (induction "length prog - nat (pc + 1)" arbitrary: e pc rule: less_induct)
  case less
  note seq = less.prems(1) and prog = less.prems(2) and plain = less.prems(3)
    and pc = less.prems(4) and lo = less.prems(5) and fin = less.prems(6)
  let ?e1 = "set_programCounter c (pc + 1) e"
  have len: "Sequence_length ?e1 (sequence (players ?e1 c)) = Inr (Some (length prog))"
    using seq prog by (simp add: Sequence_length_def)
  have pc1: "programCounter (players ?e1 c) = pc + 1" by simp
  show ?case
  proof (cases "int (length prog) \<le> pc + 1")
    case True
    let ?e' = "set_currentCommand c HaltSentinel ?e1"
    have "Player_advance c e = Return ?e'"
      using True pc by (simp add: Player_advance_def Let_def length_le_def len pc1 del: set_fields)
    then have run: "Player_run c e = Some (Inr ?e')"
      using fin by (subst Player_run.simps) simp
    have "player ?e' = player e" "callStack ?e' = callStack e" "sequence (players ?e' c) = Own sn"
      using seq by (simp_all add: set_currentCommand_def set_programCounter_def)
    moreover have "\<not> nat (pc + 1) < length prog" using True by linarith
    ultimately show ?thesis using run
      by (intro exI [of _ ?e'] exI [of _ "[]"]) simp
  next
    case False
    define i where "i = nat (pc + 1)"
    define r where "r = prog ! i"
    have i: "i < length prog" "int i = pc + 1" using False lo by (simp_all add: i_def)
    have rin: "r \<in> set (drop i prog)"
      using Cons_nth_drop_Suc [OF i(1)] by (metis list.set_intros(1) r_def)
    have fetch: "fetchCommand ?e1 (sequence (players ?e1 c)) (pc + 1) = Inr (Some r)"
      using seq prog i by (simp add: fetchCommand_def r_def flip: i_def)
    let ?e3 = "call_init r (set_currentCommand c (Fetched r) ?e1)"
    have plain3: "\<forall>x\<in>set (drop i prog). plain_command (heap ?e3 x)"
      using plain by (simp add: plain_command_kept flip: i_def)
    from plain3 rin have "plain_command (heap ?e3 r)" by blast
    then have "list_all plain_action (start_body (command_of ?e3 (Fetched r)))"
      unfolding plain_command_def command_of_def by simp
    from plain_body_runs [OF this, of "Fetched r" "log_event (Start (Fetched r)) ?e3"]
    obtain e4 where e4: "call_start (Fetched r) ?e3 = Inr e4" "players e4 = players ?e3"
      "sequences e4 = sequences e" "trace e4 = trace e @ activation r"
      "player e4 = player e" "callStack e4 = callStack e"
      "\<forall>x. plain_command (heap e4 x) = plain_command (heap ?e3 x)"
      by (auto simp: call_start_def activation_def call_init_def set_currentCommand_def
          set_programCounter_def log_event_def)
    have pl4: "players e4 c = \<lparr>sequence = Own sn, currentCommand = Fetched r, programCounter = pc + 1\<rparr>"
      using e4(2) seq by simp
    have plain4: "\<forall>x\<in>set (drop i prog). plain_command (heap e4 x)"
      using plain3 e4(7) by simp
    have adv: "Player_advance c e = (if isBreak (heap e4 r) then Break e4 else Continue e4)"
      using False pc e4(1) pl4
      by (simp add: Player_advance_def Let_def length_le_def command_of_def len pc1 fetch
          del: set_fields)
    have upd: "\<exists>e' evs. Player_update c e4 = Inr e' \<and> trace e' = trace e @ evs
         \<and> target ` set evs \<subseteq> Fetched ` set (drop i prog)
         \<and> take 2 evs = activation r
         \<and> players e' c = (players e' c)\<lparr>sequence := Own sn\<rparr>
         \<and> player e' = player e \<and> callStack e' = callStack e \<and> pc < programCounter (players e' c)"
    proof -
      from plain_update [of e4 c r] pl4 plain4 rin obtain e' rest where
        u: "Player_update c e4 = Inr e'" "trace e' = trace e4 @ rest" "target ` set rest \<subseteq> {Fetched r}"
          "players e' = players e4" "player e' = player e4" "callStack e' = callStack e4"
        by auto
      have "target ` set (activation r @ rest) \<subseteq> Fetched ` set (drop i prog)"
        using u(3) rin by (auto simp: activation_def)
      with u e4 pl4 show ?thesis
        by (intro exI [of _ e'] exI [of _ "activation r @ rest"]) (simp add: activation_def)
    qed
    have goal: ?thesis if "Player_run c e = Some (Player_update c e4)"
      using upd that i by (auto simp flip: i_def r_def)
    show ?thesis
    proof (cases "isBreak (heap e4 r)")
      case True
      with adv fin have "Player_run c e = Some (Player_update c e4)"
        by (subst Player_run.simps) simp
      then show ?thesis by (rule goal)
    next
      case nb: False
      with adv fin have step: "Player_run c e = Player_run c e4"
        by (subst Player_run.simps) simp
      show ?thesis
      proof (cases "isFinished (heap e4 r)")
        case nf: False
        with pl4 have "Player_run c e4 = Some (Player_update c e4)"
          by (subst Player_run.simps) (simp add: command_of_def)
        with step show ?thesis by (intro goal) simp
      next
        case True
        have m: "length prog - nat (pc + 1 + 1) < length prog - nat (pc + 1)"
          using i lo by linarith
        have d: "set (drop (nat (pc + 1 + 1)) prog) \<subseteq> set (drop i prog)"
          using i by (intro set_drop_subset_set_drop) (simp add: i_def)
        have "\<exists>e' evs. Player_run c e4 = Some (Inr e') \<and> trace e' = trace e4 @ evs
           \<and> target ` set evs \<subseteq> Fetched ` set (drop (nat (pc + 1 + 1)) prog)
           \<and> (nat (pc + 1 + 1) < length prog \<longrightarrow> take 2 evs = activation (prog ! nat (pc + 1 + 1)))
           \<and> players e' c = (players e' c)\<lparr>sequence := Own sn\<rparr>
           \<and> player e' = player e4 \<and> callStack e' = callStack e4 \<and> pc + 1 < programCounter (players e' c)"
        proof (rule less.hyps [OF m])
          show "sequence (players e4 c) = Own sn" "programCounter (players e4 c) = pc + 1"
            using pl4 by simp_all
          show "sequences e4 sn = Some prog" using e4(3) prog by simp
          show "\<forall>x\<in>set (drop (nat (pc + 1 + 1)) prog). plain_command (heap e4 x)"
            using plain4 d by blast
          show "- 1 \<le> pc + 1" using lo by simp
          show "isFinished (command_of e4 (currentCommand (players e4 c)))"
            using True pl4 by (simp add: command_of_def)
        qed
        then obtain e' evs where
          r: "Player_run c e4 = Some (Inr e')" "trace e' = trace e4 @ evs"
            "target ` set evs \<subseteq> Fetched ` set (drop (nat (pc + 1 + 1)) prog)"
            "players e' c = (players e' c)\<lparr>sequence := Own sn\<rparr>"
            "player e' = player e4" "callStack e' = callStack e4" "pc + 1 < programCounter (players e' c)"
          by blast
        have "target ` set (activation r @ evs) \<subseteq> Fetched ` set (drop i prog)"
          using r(3) d rin by (auto simp: activation_def)
        with r step e4 i show ?thesis
          by (intro exI [of _ e'] exI [of _ "activation r @ evs"])
             (simp add: activation_def flip: i_def r_def)
      qed
    qed
  qed
qed


text \<open>
  The tick in which the first command of \<open>break_registered\<close> calls \<open>gosub\<close> and sets
  \<open>isBreak\<close> ends in the state right after that call.
\<close>

lemma break_tick: "Engine_run break_registered = Some (Inr (Engine_gosub 0 ''sub'' break_calling))"
proof -
  let ?G = "Engine_gosub 0 ''sub'' break_calling"
  let ?e1 = "set_programCounter 0 0 break_registered"
  have pc: "programCounter (players break_registered 0) + 1 = 0" by code_simp
  have fin0: "isFinished (command_of break_registered (currentCommand (players break_registered 0)))"
    by code_simp
  have len: "Sequence_length ?e1 (sequence (players ?e1 0)) = Inr (Some 3)" by code_simp
  have pc1: "programCounter (players ?e1 0) = 0" by code_simp
  have fetch: "fetchCommand ?e1 (sequence (players ?e1 0)) 0 = Inr (Some 0)" by code_simp
  have body: "start_body (command_of (call_init 0 (set_currentCommand 0 (Fetched 0) ?e1)) (Fetched 0))
      = [Gosub 0 ''sub'']" by code_simp
  have start: "call_start (Fetched 0) (call_init 0 (set_currentCommand 0 (Fetched 0) ?e1)) = Inr ?G"
    by (simp add: call_start_def body break_calling_def)
  have brk: "isBreak (command_of ?G (currentCommand (players ?G 0)))" by code_simp
  have adv: "Player_advance 0 break_registered = Break ?G"
    by (simp add: Player_advance_def Let_def pc len pc1 fetch start brk length_le_def del: set_fields)
  have fin: "isFinished (command_of ?G (currentCommand (players ?G 0)))" by code_simp
  have upd: "Player_update 0 ?G = Inr ?G" by (simp add: Player_update_def fin)
  have run: "Player_run 0 break_registered = Some (Inr ?G)"
    by (subst Player_run.simps) (simp add: fin0 adv upd)
  have p: "player break_registered = Some 0" "player ?G = Some 1" "\<not> Player_isHalted ?G 1"
    by (code_simp, code_simp, code_simp)
  show ?thesis using p run by (simp add: Engine_run_def)
qed



subsection \<open>Registering a script twice\<close>

lemma sequences_Engine_run:
  assumes "Engine_run e = Some (Inr e')"
  shows "sequences e' = sequences e"
proof -
  from assms obtain p e1 where run: "Player_run p e = Some (Inr e1)"
    and e': "e' = e1 \<or> e' = e1\<lparr>player := last (callStack e1), callStack := butlast (callStack e1)\<rparr>"
    by (auto simp: Engine_run_def split: option.splits sum.splits if_splits)
  have "sequences e1 = sequences e"
  proof (rule Player_run_preserves [where I = "\<lambda>x. sequences x = sequences e", OF run])
    show "\<And>x this a x'. sequences x = sequences e \<Longrightarrow> exec_action this a x = Inr x' \<Longrightarrow>
        sequences x' = sequences e"
      using exec_action_frame by metis
  qed simp_all
  with e' show ?thesis by auto
qed

text \<open>
  The engine never has a Sequence under a name that \<open>Object.prototype\<close> has a member
  of.
\<close>

lemma inherited_names_unregistered:
  assumes "host_calls cs e = Some (Inr e')" "\<forall>n\<in>set object_prototype_names. sequences e n = None"
  shows "\<forall>n\<in>set object_prototype_names. sequences e' n = None"
  using assms
proof (induction cs arbitrary: e)
  case Nil
  then show ?case by simp
next
  case (Cons c cs)
  from Cons.prems(1) obtain e1 where c: "do_call c e = Some (Inr e1)" and r: "host_calls cs e1 = Some (Inr e')"
    by (auto split: option.splits sum.splits)
  have "\<forall>n\<in>set object_prototype_names. sequences e1 n = None"
  proof (cases c)
    case (Register cmds n)
    with c have reg: "Engine_register cmds n e = Inr e1" by simp
    have ok: "n \<notin> set object_prototype_names \<or> sequences e n \<noteq> None"
      using reg Engine_register_inherited [of n e cmds] by auto
    with Cons.prems(2) have n: "n \<notin> set object_prototype_names" by auto
    from Engine_register_total [OF ok, of cmds] reg n Cons.prems(2) show ?thesis by auto
  next
    case Run
    with c sequences_Engine_run [of e e1] Cons.prems(2) show ?thesis by simp
  next
    case (HostGoto i n)
    with c Cons.prems(2) show ?thesis by (auto simp: Engine_goto_def split: option.splits)
  next
    case (HostGosub i n)
    with c Cons.prems(2) show ?thesis by (auto simp: Engine_gosub_def Player_new_def Let_def)
  next
    case (HostSetValue n v)
    with c Cons.prems(2) show ?thesis by (auto simp: setValue_def)
  qed
  from Cons.IH [OF r this] show ?case .
qed

text \<open>
  C5 fails on the code. For a script name that \<open>Object.prototype\<close> has no member
  of, two calls of \<open>register\<close> with that name both return; the sequence after the
  second is the sequence before the first, then the commands of the first call, then
  those of the second; and the second call calls \<open>onRegistered\<close> on every command of
  that whole sequence, those of the first call included, in order. For a script name
  that \<open>Object.prototype\<close> has a member of (\<open>constructor\<close>, \<open>toString\<close>, ...), a call
  of \<open>register\<close> fails with a TypeError in every state the host reaches from a new
  engine: no Sequence is made, nothing is appended and no \<open>onRegistered\<close> is called, in
  the first call and in every later one.
\<close>

theorem register_twice_appends:
  "(n \<notin> set object_prototype_names \<longrightarrow>
      (\<exists>e1 e2. Engine_register cmds1 n e = Inr e1 \<and> Engine_register cmds2 n e1 = Inr e2
         \<and> sequences e1 n = Some ((case sequences e n of None \<Rightarrow> [] | Some prog \<Rightarrow> prog) @ cmds1)
         \<and> sequences e2 n = Some ((case sequences e n of None \<Rightarrow> [] | Some prog \<Rightarrow> prog) @ cmds1 @ cmds2)
         \<and> trace e2 = trace e1 @ map (\<lambda>r. OnRegistered (Fetched r))
                ((case sequences e n of None \<Rightarrow> [] | Some prog \<Rightarrow> prog) @ cmds1 @ cmds2)))
   \<and> (n \<in> set object_prototype_names \<and> host_calls cs (Engine_new store) = Some (Inr e)
        \<longrightarrow> Engine_register cmds1 n e = Inl TypeError)"
proof (intro conjI impI)
  assume n: "n \<notin> set object_prototype_names"
  from Engine_register_total [of n e cmds1] n obtain e1 where
    e1: "Engine_register cmds1 n e = Inr e1"
      "sequences e1 = (sequences e)(n \<mapsto> (case sequences e n of None \<Rightarrow> [] | Some prog \<Rightarrow> prog) @ cmds1)"
    by blast
  from Engine_register_total [of n e1 cmds2] n obtain e2 where
    e2: "Engine_register cmds2 n e1 = Inr e2"
      "sequences e2 = (sequences e1)(n \<mapsto> (case sequences e1 n of None \<Rightarrow> [] | Some prog \<Rightarrow> prog) @ cmds2)"
      "trace e2 = trace e1 @ map (\<lambda>r. OnRegistered (Fetched r))
            ((case sequences e1 n of None \<Rightarrow> [] | Some prog \<Rightarrow> prog) @ cmds2)"
    by blast
  from e1 e2
  show "\<exists>e1 e2. Engine_register cmds1 n e = Inr e1 \<and> Engine_register cmds2 n e1 = Inr e2
         \<and> sequences e1 n = Some ((case sequences e n of None \<Rightarrow> [] | Some prog \<Rightarrow> prog) @ cmds1)
         \<and> sequences e2 n = Some ((case sequences e n of None \<Rightarrow> [] | Some prog \<Rightarrow> prog) @ cmds1 @ cmds2)
         \<and> trace e2 = trace e1 @ map (\<lambda>r. OnRegistered (Fetched r))
                ((case sequences e n of None \<Rightarrow> [] | Some prog \<Rightarrow> prog) @ cmds1 @ cmds2)"
    by simp
next
  assume a: "n \<in> set object_prototype_names \<and> host_calls cs (Engine_new store) = Some (Inr e)"
  have "\<forall>n\<in>set object_prototype_names. sequences (Engine_new store) n = None"
    by (simp add: Engine_new_def)
  from inherited_names_unregistered [OF _ this, of cs e] a
  have "sequences e n = None" by blast
  with a show "Engine_register cmds1 n e = Inl TypeError"
    using Engine_register_inherited by blast
qed

theorem register_twice_appends_witness:
  "(\<exists>e1 e2. Engine_register [0] ''default'' (Engine_new hello_store) = Inr e1
       \<and> Engine_register [1] ''default'' e1 = Inr e2
       \<and> sequences e1 ''default'' = Some [0] \<and> sequences e2 ''default'' = Some [0, 1]
       \<and> trace e2 = trace e1 @ [OnRegistered (Fetched 0), OnRegistered (Fetched 1)])
   \<and> Engine_register [0] ''constructor'' (Engine_new hello_store) = Inl TypeError
   \<and> host_calls [Register [0] ''default'', Run] (Engine_new hello_store) = Some (Inr (hello_ticks 1))
   \<and> Engine_register [1] ''constructor'' (hello_ticks 1) = Inl TypeError"
proof -
  have "returned (host_calls [Register [0] ''default'', Run] (Engine_new hello_store))" by code_simp
  from returned_result [OF this, of "Engine_new hello_store"]
  have h: "host_calls [Register [0] ''default'', Run] (Engine_new hello_store) = Some (Inr (hello_ticks 1))"
    by (simp add: hello_ticks_def)
  have c: "''constructor'' \<in> set object_prototype_names" "''default'' \<notin> set object_prototype_names"
    by (simp_all add: object_prototype_names_def)
  have 0: "host_calls [] (Engine_new hello_store) = Some (Inr (Engine_new hello_store))" by simp
  from register_twice_appends [of "''default''" "[0]" "Engine_new hello_store" "[1]" "[]" hello_store]
    register_twice_appends [of "''constructor''" "[0]" "Engine_new hello_store" "[1]" "[]" hello_store]
    register_twice_appends [of "''constructor''" "[1]" "hello_ticks 1" "[1]"
      "[Register [0] ''default'', Run]" hello_store] c 0 h
  show ?thesis by (simp add: Engine_new_def)
qed

subsection \<open>Jumps to a name that is not a script\<close>

text \<open>
  A jump into a script name that was not registered fails in the next tick. A jump
  into the name of a member of \<open>Object.prototype\<close> makes that member the sequence of
  the Player: with \<open>toString\<close>, whose \<open>length\<close> is 0, the next tick halts the Player;
  with \<open>constructor\<close>, whose \<open>length\<close> is 1, the next tick fails at \<open>fetchCommand\<close>.
\<close>

lemma jump_to_no_script:
  "thrown (host_calls [Register [0] ''default'', HostGoto 0 ''nowhere'', Run] (Engine_new hello_store))
     = Some TypeError
   \<and> returned (host_calls [Register [0] ''default'', HostGoto 0 ''toString'', Run] (Engine_new hello_store))
   \<and> Engine_isHalted (result_of
        (host_calls [Register [0] ''default'', HostGoto 0 ''toString'', Run] (Engine_new hello_store))
        (Engine_new hello_store)) = Inr True
   \<and> thrown (host_calls [Register [0] ''default'', HostGoto 0 ''constructor'', Run] (Engine_new hello_store))
     = Some TypeError"
  by code_simp

subsection \<open>The parser\<close>

lemma skip_comment_finds_newline:
  assumes "skip_comment s p = Some y"
  shows "\<exists>i\<ge>p. char_at s i = Some (CHR 0x0A)"
proof (rule skip_comment.raw_induct
    [where P = "\<lambda>s p y. \<exists>i\<ge>p. char_at s i = Some (CHR 0x0A)", OF _ assms])
  fix f s p y
  assume IH: "\<And>s p y. f s p = Some y \<Longrightarrow> \<exists>i\<ge>p. char_at s i = Some (CHR 0x0A)"
    and eq: "(if char_at s p \<noteq> Some (CHR 0x0A) then f s (p + 1) else Some (p + 1)) = Some y"
  show "\<exists>i\<ge>p. char_at s i = Some (CHR 0x0A)"
  proof (cases "char_at s p = Some (CHR 0x0A)")
    case True
    then show ?thesis by blast
  next
    case False
    with eq have "f s (p + 1) = Some y" by simp
    from IH [OF this] obtain i where "p + 1 \<le> i" "char_at s i = Some (CHR 0x0A)" by blast
    then show ?thesis by (intro exI [of _ i]) simp
  qed
qed

lemma skip_comment_no_newline:
  assumes "CHR 0x0A \<notin> set s"
  shows "skip_comment s p = None"
proof (cases "skip_comment s p")
  case None
  then show ?thesis .
next
  case (Some y)
  from skip_comment_finds_newline [OF Some] obtain i where "char_at s i = Some (CHR 0x0A)" by blast
  then have "CHR 0x0A \<in> set s" by (auto simp: char_at_def in_set_conv_nth split: if_splits)
  with assms show ?thesis by simp
qed

text \<open>
  C3 fails on the code. A script that starts a single-line comment which no newline
  ends makes \<open>Parser.parse\<close> neither return nor fail: the loop that skips the comment
  reads beyond the end of the script without end. This holds for every factory table
  and every file name.
\<close>

theorem comment_without_newline_never_returns:
  assumes "CHR 0x0A \<notin> set rest"
  shows "parse commandTable (''//'' @ rest) filename = None"
proof -
  define s where "s = ''//'' @ rest"
  define st0 :: "'a parser" where "st0 = \<lparr>commands = [], current_command = None, pos = 0,
      state = Some Default, stateStack = [], line = 1\<rparr>"
  define st1 where "st1 = st0\<lparr>stateStack := stateStack st0 @ [Default], state := Some SingleLineComment\<rparr>"
  have nl: "CHR 0x0A \<notin> set s" using assms by (simp add: s_def)
  have p: "pos st0 < length s" "pos st1 < length s" by (simp_all add: s_def st0_def st1_def)
  have step0: "parse_step commandTable s filename st0 = Some (Inr st1)"
    by (simp add: parse_step_def is_separator_def char_at_def s_def st0_def st1_def)
  have step1: "parse_step commandTable s filename st1 = None"
    using skip_comment_no_newline [OF nl, of "pos st1"] by (simp add: parse_step_def st1_def)
  have "parse_loop commandTable s filename st1 = None"
    by (subst parse_loop.simps) (simp add: step1 p)
  then have "parse_loop commandTable s filename st0 = None"
    by (subst parse_loop.simps) (simp add: step0 p)
  then show ?thesis by (simp add: parse_def s_def st0_def)
qed

theorem comment_without_newline_never_returns_witness:
  "parse foo_table ''// the end'' ''story.txt'' = None"
  using comment_without_newline_never_returns [of "'' the end''" foo_table "''story.txt''"] by simp

text \<open>
  C7 fails on the code. The table knows \<open>Foo\<close> and not \<open>Zzz\<close>. In both scripts the call
  of \<open>Zzz\<close> stands on line 3, and the parse fails with the unsupported-command error
  for \<open>Zzz\<close> and the file name. After an empty line the error cites line 3. After a
  call of \<open>Foo\<close> whose string holds a newline it cites line 2: the newline inside the
  string was not counted.
\<close>

theorem unsupported_command_line_miscounted:
  "parse foo_table blank_line_script ''story.txt'' = Some (Inl (UnsupportedCommand ''story.txt'' 3 ''Zzz''))
   \<and> take 5 (drop 7 blank_line_script) = ''Zzz()'' \<and> line_of blank_line_script 7 = 3
   \<and> parse foo_table multiline_script ''story.txt'' = Some (Inl (UnsupportedCommand ''story.txt'' 2 ''Zzz''))
   \<and> take 5 (drop 11 multiline_script) = ''Zzz()'' \<and> line_of multiline_script 11 = 3"
  by code_simp

text \<open>
  A call whose name the table inherits from \<open>Object.prototype\<close> is not reported as
  unsupported: the inherited method is called, and what it returns is pushed as a
  command.
\<close>

lemma parse_inherited_member:
  "parse foo_table ''constructor()'' ''story.txt'' = Some (Inr [MemberResult ''constructor'' []])"
  by code_simp

end
